theory Spec2Isabelle
  imports Main
begin

section \<open>Graph: nodes, identifiers and adjacency (package graph)\<close>

text \<open>
  A node of the Go code is a struct with an identifier part (\<open>Kind\<close>, \<open>Idx\<close>,
  \<open>Value\<close>) and a mutable part (\<open>Order\<close> and the three loop marks). The graph keeps
  exactly one node object per identifier, and intervals and derived graphs refer to node
  objects by pointer. The model therefore names a node object by its identifier and keeps
  the mutable part in a store keyed by identifier.

  \<open>Graph.Node\<close> builds the identifier \<open>{DefaultNode, 0, value}\<close> and \<open>Graph.Interval\<close>
  builds \<open>{IntervalNode, idx, zero value of N}\<close>; the zero value of the type parameter
  \<open>N\<close> is \<open>0\<close> of the class \<open>zero\<close>.
\<close>

datatype Kind = DefaultNode | IntervalNode

datatype 'n ID = ID (Kind: Kind) (Idx: int) (Value: 'n)

definition node_id :: "'n \<Rightarrow> 'n ID" where
  "node_id v = ID DefaultNode 0 v"

definition interval_id :: "int \<Rightarrow> ('n::zero) ID" where
  "interval_id i = ID IntervalNode i 0"

record nodeState =
  Order :: int
  IsLoopNode :: bool
  IsLoopHead :: bool
  IsLoopLatch :: bool

type_synonym 'n store = "'n ID \<Rightarrow> nodeState"

definition fresh_store :: "'n store" where
  "fresh_store = (\<lambda>_. \<lparr>Order = 0, IsLoopNode = False, IsLoopHead = False, IsLoopLatch = False\<rparr>)"

text \<open>
  The three tables of \<open>Graph\<close> are Go maps. A Go map is enumerated in an order the
  language leaves open, so the model carries, for each table, the order in which the run
  enumerates it: \<open>nodes\<close> lists the keys of the node table, and \<open>incoming\<close> and
  \<open>outgoing\<close> associate a node with the list of its neighbours. Every theorem below
  that speaks of an arbitrary graph holds for each such order.
\<close>

record 'n graph =
  root :: "'n ID option"
  nodes :: "'n ID list"
  incoming :: "('n ID \<times> 'n ID list) list"
  outgoing :: "('n ID \<times> 'n ID list) list"

definition New :: "'n graph" where
  "New = \<lparr>root = None, nodes = [], incoming = [], outgoing = []\<rparr>"

definition SetRoot :: "'n graph \<Rightarrow> 'n ID \<Rightarrow> 'n graph" where
  "SetRoot g n = g\<lparr>root := Some n\<rparr>"

definition add_node :: "'n graph \<Rightarrow> 'n ID \<Rightarrow> 'n graph" where
  "add_node g i =
     (if i \<in> set (nodes g) then g
      else g\<lparr>nodes := nodes g @ [i],
             incoming := incoming g @ [(i, [])],
             outgoing := outgoing g @ [(i, [])]\<rparr>)"

definition Node :: "'n graph \<Rightarrow> 'n \<Rightarrow> 'n graph" where
  "Node g v = add_node g (node_id v)"

definition graph_Interval :: "('n::zero) graph \<Rightarrow> int \<Rightarrow> 'n graph" where
  "graph_Interval g i = add_node g (interval_id i)"

fun set_adj :: "('a \<times> 'a list) list \<Rightarrow> 'a \<Rightarrow> 'a \<Rightarrow> ('a \<times> 'a list) list" where
  "set_adj [] a b = [(a, [b])]"
| "set_adj ((k, xs) # m) a b =
     (if k = a then (k, if b \<in> set xs then xs else xs @ [b]) # m
      else (k, xs) # set_adj m a b)"

definition SetEdge :: "'n graph \<Rightarrow> 'n ID \<Rightarrow> 'n ID \<Rightarrow> 'n graph" where
  "SetEdge g from to =
     g\<lparr>outgoing := set_adj (outgoing g) from to,
       incoming := set_adj (incoming g) to from\<rparr>"

definition adj :: "('a \<times> 'a list) list \<Rightarrow> 'a \<Rightarrow> 'a list" where
  "adj m n = (case map_of m n of None \<Rightarrow> [] | Some xs \<Rightarrow> xs)"

definition Successors :: "'n graph \<Rightarrow> 'n ID \<Rightarrow> 'n ID list" where
  "Successors g n = adj (outgoing g) n"

definition Predecessors :: "'n graph \<Rightarrow> 'n ID \<Rightarrow> 'n ID list" where
  "Predecessors g n = adj (incoming g) n"

definition Len :: "'n graph \<Rightarrow> nat" where
  "Len g = length (nodes g)"

definition GetNode :: "'n graph \<Rightarrow> 'n \<Rightarrow> 'n ID option" where
  "GetNode g v = (if node_id v \<in> set (nodes g) then Some (node_id v) else None)"

section \<open>Primitives and errors\<close>

datatype PrimitiveKind = NoKind | PreTestedLoop | PostTestedLoop | EndlessLoop | TwoWayConditional

record 'n Primitive =
  Kind :: PrimitiveKind
  Entry :: 'n
  Body :: "'n list"
  Exit :: 'n
  Extra :: "string \<rightharpoonup> 'n"

text \<open>
  The errors that the structurer returns as values (the texts of \<open>fmt.Errorf\<close> and
  \<open>errors.New\<close>), and the ways in which the Go run time or an explicit \<open>panic\<close> aborts
  the call.
\<close>

datatype error =
    UnsupportedHeader nat
  | UnsupportedLatch nat
  | NoPreTestedFollow
  | NoPostTestedFollow
  | UnsupportedLoopKind

datatype panic = NilDereference | IndexOutOfRange | LatchNotFound

fun isUnsupportedFanOut :: "error \<Rightarrow> bool" where
  "isUnsupportedFanOut (UnsupportedHeader k) = True"
| "isUnsupportedFanOut (UnsupportedLatch k) = True"
| "isUnsupportedFanOut e = False"

definition contains :: "'n ID list \<Rightarrow> 'n ID \<Rightarrow> bool" where
  "contains ns n = (n \<in> set ns)"

section \<open>Loop classification\<close>

text \<open>
  \<open>findLoopKind\<close>: both definitions in the source have this body. In the branch where
  the head has two successors, \<open>headSuccs[0]\<close> and \<open>headSuccs[1]\<close> exist.
\<close>

definition findLoopKind ::
  "'n graph \<Rightarrow> 'n ID \<Rightarrow> 'n ID \<Rightarrow> 'n ID list \<Rightarrow> error + PrimitiveKind" where
  "findLoopKind g head latch ns =
     (if head = latch then Inr PostTestedLoop
      else
        let headSuccs = Successors g head; latchSuccs = Successors g latch in
        if length latchSuccs = 2 then
          (if length headSuccs = 2 then
             (if contains ns (headSuccs ! 0) \<and> contains ns (headSuccs ! 1)
              then Inr PostTestedLoop else Inr PreTestedLoop)
           else if length headSuccs = 1 then Inr PostTestedLoop
           else Inl (UnsupportedHeader (length headSuccs)))
        else if length latchSuccs = 1 then
          (if length headSuccs = 2 then Inr PreTestedLoop
           else if length headSuccs = 1 then Inr EndlessLoop
           else Inl (UnsupportedHeader (length headSuccs)))
        else Inl (UnsupportedLatch (length latchSuccs)))"


text \<open>
  A graph in which node 2 has the self-loop \<open>2 \<rightarrow> 2\<close> and the three successors
  2, 3 and 4 (built as the tests build their graphs).
\<close>

definition fanout3_graph :: "int graph" where
  "fanout3_graph =
     (let g = SetRoot (Node New 1) (node_id 1);
          g = Node (Node (Node g 2) 3) 4;
          g = SetEdge g (node_id 1) (node_id 2);
          g = SetEdge g (node_id 2) (node_id 2);
          g = SetEdge g (node_id 2) (node_id 3);
          g = SetEdge g (node_id 2) (node_id 4)
      in g)"

section \<open>Dominator tree (package dominator)\<close>

text \<open>
  The structurer uses three queries of the dominator tree. In the theorems about an
  arbitrary tree, a tree is any value of this record.
\<close>

record 'n tree =
  DominatorOf :: "'n ID \<Rightarrow> 'n ID"
  Dominates :: "'n ID \<Rightarrow> 'n ID \<Rightarrow> bool"
  DominatedBy :: "'n ID \<Rightarrow> 'n ID list"

text \<open>
  Modelled from the spec: the package \<open>dominator\<close> (\<open>dominator.New\<close>,
  \<open>DominatorOf\<close>, \<open>Dominates\<close>, \<open>DominatedBy\<close>) is not among the sources. The
  spec gives its contract: \<open>dominates(a, b)\<close> is true iff \<open>a == b\<close> or \<open>a\<close> lies on
  every path from the root to \<open>b\<close>; \<open>dominator_of(n)\<close> is the immediate dominator of
  \<open>n\<close>, or \<open>n\<close> itself for the root; \<open>dominated_by(n)\<close> are the nodes whose
  immediate dominator is \<open>n\<close>. Here \<open>reach_avoiding g a\<close> collects the nodes that a
  path from the root reaches without passing through \<open>a\<close>, and the immediate
  dominator of \<open>n\<close> is the strict dominator of \<open>n\<close> that every strict dominator
  of \<open>n\<close> dominates (\<open>n\<close> itself where there is none).
\<close>

definition reach_step :: "'n graph \<Rightarrow> 'n ID \<Rightarrow> 'n ID list \<Rightarrow> 'n ID list" where
  "reach_step g a seen =
     fold (\<lambda>n acc. fold (\<lambda>s acc. if s = a \<or> s \<in> set acc then acc else acc @ [s])
                          (Successors g n) acc) seen seen"

definition reach_avoiding :: "'n graph \<Rightarrow> 'n ID \<Rightarrow> 'n ID list" where
  "reach_avoiding g a =
     (case root g of None \<Rightarrow> []
      | Some r \<Rightarrow> if r = a then [] else (reach_step g a ^^ Len g) [r])"

definition dominates :: "'n graph \<Rightarrow> 'n ID \<Rightarrow> 'n ID \<Rightarrow> bool" where
  "dominates g a b = (a = b \<or> b \<notin> set (reach_avoiding g a))"

definition idom :: "'n graph \<Rightarrow> 'n ID \<Rightarrow> 'n ID" where
  "idom g n =
     (if root g = Some n then n
      else
        let sd = filter (\<lambda>a. a \<noteq> n \<and> dominates g a n) (nodes g) in
        case filter (\<lambda>d. list_all (\<lambda>a. dominates g a d) sd) sd of
          [] \<Rightarrow> n
        | d # _ \<Rightarrow> d)"

definition children :: "'n graph \<Rightarrow> 'n ID \<Rightarrow> 'n ID list" where
  "children g n = filter (\<lambda>m. m \<noteq> n \<and> idom g m = n) (nodes g)"

definition dominator_New :: "'n graph \<Rightarrow> 'n tree" where
  "dominator_New g =
     \<lparr>DominatorOf = idom g, Dominates = dominates g, DominatedBy = children g\<rparr>"

section \<open>Follow node of a loop\<close>

definition MaxInt64 :: int where
  "MaxInt64 = 9223372036854775807"

text \<open>
  The loop of the endless case: one step for a node \<open>n\<close> of the loop, on the pair
  (\<open>followRevPostNum\<close>, \<open>follow\<close>).
\<close>

definition endlessStep ::
  "'n graph \<Rightarrow> 'n store \<Rightarrow> 'n ID list \<Rightarrow> 'n ID \<Rightarrow> int \<times> 'n ID option \<Rightarrow> int \<times> 'n ID option" where
  "endlessStep g st ns n acc =
     (let nSuccs = Successors g n in
      if length nSuccs \<noteq> 2 then acc
      else if \<not> contains ns (nSuccs ! 0) \<and> Order (st (nSuccs ! 0)) < fst acc
        then (Order (st (nSuccs ! 0)), Some (nSuccs ! 0))
      else if \<not> contains ns (nSuccs ! 1) \<and> Order (st (nSuccs ! 1)) < fst acc
        then (Order (st (nSuccs ! 1)), Some (nSuccs ! 1))
      else acc)"

definition endlessFollow :: "'n graph \<Rightarrow> 'n store \<Rightarrow> 'n ID list \<Rightarrow> 'n ID option" where
  "endlessFollow g st ns =
     (let r = fold (endlessStep g st ns) ns (MaxInt64, None) in
      if fst r \<noteq> MaxInt64 then snd r else None)"

text \<open>
  \<open>findLoopFollow\<close>, the definition that only tests which successor lies in the loop.
  The result is a panic of the run time (an index outside \<open>headSuccs\<close> or
  \<open>latchSuccs\<close>), or the pair the Go function returns: an error, or the follow node,
  \<open>None\<close> for \<open>nil\<close>.
\<close>

definition findLoopFollow ::
  "'n graph \<Rightarrow> PrimitiveKind \<Rightarrow> 'n ID \<Rightarrow> 'n ID \<Rightarrow> 'n ID list \<Rightarrow> 'n store
     \<Rightarrow> panic + (error + 'n ID option)" where
  "findLoopFollow g kind head latch ns st =
     (let headSuccs = Successors g head; latchSuccs = Successors g latch in
      case kind of
        PreTestedLoop \<Rightarrow>
          (case headSuccs of
             h0 # h1 # _ \<Rightarrow>
               Inr (if contains ns h0 then Inr (Some h1)
                    else if contains ns h1 then Inr (Some h0)
                    else Inl NoPreTestedFollow)
           | _ \<Rightarrow> Inl IndexOutOfRange)
      | PostTestedLoop \<Rightarrow>
          (case latchSuccs of
             l0 # l1 # _ \<Rightarrow>
               Inr (if contains ns l0 then Inr (Some l1)
                    else if contains ns l1 then Inr (Some l0)
                    else Inl NoPostTestedFollow)
           | _ \<Rightarrow> Inl IndexOutOfRange)
      | EndlessLoop \<Rightarrow> Inr (Inr (endlessFollow g st ns))
      | _ \<Rightarrow> Inr (Inl UnsupportedLoopKind))"

text \<open>
  \<open>findLoopFollow\<close>, the definition with the dominator tree. Its pre-tested case first
  walks up the dominator tree from the latch until it meets one of the first two
  successors of the head; the walk need not end, so it is a partial function: \<open>None\<close>
  stands for a walk that never returns.
\<close>

partial_function (option) dominatorWalk ::
  "'n tree \<Rightarrow> 'n ID list \<Rightarrow> 'n ID \<Rightarrow> (panic + 'n ID) option" where
  "dominatorWalk dt headSuccs targetNode =
     (case headSuccs of
        [] \<Rightarrow> Some (Inl IndexOutOfRange)
      | h0 # r \<Rightarrow>
          if targetNode = h0 then Some (Inr targetNode)
          else (case r of
                  [] \<Rightarrow> Some (Inl IndexOutOfRange)
                | h1 # _ \<Rightarrow>
                    if targetNode = h1 then Some (Inr targetNode)
                    else dominatorWalk dt headSuccs (DominatorOf dt targetNode)))"

declare dominatorWalk.simps [code]

definition findLoopFollow_dom ::
  "'n graph \<Rightarrow> PrimitiveKind \<Rightarrow> 'n ID \<Rightarrow> 'n ID \<Rightarrow> 'n ID list \<Rightarrow> 'n tree \<Rightarrow> 'n store
     \<Rightarrow> (panic + (error + 'n ID option)) option" where
  "findLoopFollow_dom g kind head latch ns dt st =
     (let headSuccs = Successors g head; latchSuccs = Successors g latch in
      case kind of
        PreTestedLoop \<Rightarrow>
          (case dominatorWalk dt headSuccs latch of
             None \<Rightarrow> None
           | Some (Inl p) \<Rightarrow> Some (Inl p)
           | Some (Inr targetNode) \<Rightarrow>
               Some (case headSuccs of
                       h0 # h1 # _ \<Rightarrow>
                         Inr (if contains ns h0 \<and> h1 \<noteq> latch \<and> targetNode \<noteq> h1
                                then Inr (Some h1)
                              else if contains ns h1 \<and> h0 \<noteq> latch then Inr (Some h0)
                              else Inl NoPreTestedFollow)
                     | _ \<Rightarrow> Inl IndexOutOfRange))
      | PostTestedLoop \<Rightarrow>
          Some (case latchSuccs of
                  l0 # l1 # _ \<Rightarrow>
                    Inr (if contains ns l0 then Inr (Some l1)
                         else if contains ns l1 then Inr (Some l0)
                         else Inl NoPostTestedFollow)
                | _ \<Rightarrow> Inl IndexOutOfRange)
      | EndlessLoop \<Rightarrow> Some (Inr (Inr (endlessFollow g st ns)))
      | _ \<Rightarrow> Some (Inr (Inl UnsupportedLoopKind)))"

text \<open>
  Two small graphs with root 1 and a loop headed by node 2. In \<open>while_graph\<close> the
  loop is \<open>2 \<rightarrow> 3 \<rightarrow> 2\<close> and node 4 is its exit. In \<open>closed_graph\<close> both successors
  of the head, 3 and 4, are in the loop, and node 4 is the latch.
\<close>

definition while_graph :: "int graph" where
  "while_graph =
     (let g = SetRoot (Node New 1) (node_id 1);
          g = Node (Node (Node g 2) 3) 4;
          g = SetEdge g (node_id 1) (node_id 2);
          g = SetEdge g (node_id 2) (node_id 3);
          g = SetEdge g (node_id 2) (node_id 4);
          g = SetEdge g (node_id 3) (node_id 2)
      in g)"

definition closed_graph :: "int graph" where
  "closed_graph =
     (let g = SetRoot (Node New 1) (node_id 1);
          g = Node (Node (Node g 2) 3) 4;
          g = SetEdge g (node_id 1) (node_id 2);
          g = SetEdge g (node_id 2) (node_id 3);
          g = SetEdge g (node_id 2) (node_id 4);
          g = SetEdge g (node_id 3) (node_id 4);
          g = SetEdge g (node_id 4) (node_id 2)
      in g)"

section \<open>Depth-first search and reverse postorder\<close>

text \<open>
  \<open>Graph.DFS\<close> calls the recursive closure \<open>visit\<close> on the root. The model makes the
  call stack of \<open>visit\<close> explicit: a frame \<open>(n, ss)\<close> is a call \<open>visit(n)\<close> whose loop
  over \<open>g.Successors(n)\<close> still has the successors \<open>ss\<close> to look at. \<open>visited\<close> holds
  the identifiers marked in the map \<open>visited\<close>, and \<open>post\<close> the nodes on which the
  \<open>post\<close> callback has been called, in call order. \<open>Successors\<close> is asked once for each
  visited node.
\<close>

definition universe :: "'n graph \<Rightarrow> ('n ID \<times> 'n ID list) list \<Rightarrow> 'n ID set" where
  "universe g stack =
     (\<Union>p \<in> set (outgoing g). set (snd p)) \<union> (\<Union>p \<in> set stack. set (snd p))"

lemma adj_subset: "set (adj m n) \<subseteq> (\<Union>p \<in> set m. set (snd p))"
proof (cases "map_of m n")
  case None
  then show ?thesis by (simp add: adj_def)
next
  case (Some xs)
  then have "(n, xs) \<in> set m" by (rule map_of_SomeD)
  with Some show ?thesis by (force simp: adj_def)
qed

lemma finite_universe: "finite (universe g stack)"
  by (simp add: universe_def)

function visit ::
  "'n graph \<Rightarrow> ('n ID \<times> 'n ID list) list \<Rightarrow> 'n ID list \<Rightarrow> 'n ID list
     \<Rightarrow> 'n ID list \<times> 'n ID list" where
  "visit g [] visited post = (visited, post)"
| "visit g ((n, []) # stack) visited post = visit g stack visited (post @ [n])"
| "visit g ((n, s # ss) # stack) visited post =
     (if s \<in> set visited then visit g ((n, ss) # stack) visited post
      else visit g ((s, Successors g s) # (n, ss) # stack) (s # visited) post)"
  by pat_completeness auto

termination
proof (relation "inv_image (finite_psubset <*lex*> less_than)
    (\<lambda>(g, stack, visited, post).
       (universe g stack - set visited, size_list (\<lambda>p. Suc (length (snd p))) stack))")
  show "wf (inv_image (finite_psubset <*lex*> less_than)
    (\<lambda>(g, stack, visited, post).
       (universe g stack - set visited, size_list (\<lambda>p. Suc (length (snd p))) stack)))"
    by (intro wf_inv_image wf_lex_prod wf_finite_psubset wf_less_than)
next
  fix g :: "'n graph" and n :: "'n ID" and visited post :: "'n ID list"
    and stack :: "('n ID \<times> 'n ID list) list"
  have "universe g stack = universe g ((n, []) # stack)"
    by (simp add: universe_def)
  then show "((g, stack, visited, post @ [n]), (g, (n, []) # stack, visited, post))
    \<in> inv_image (finite_psubset <*lex*> less_than)
    (\<lambda>(g, stack, visited, post).
       (universe g stack - set visited, size_list (\<lambda>p. Suc (length (snd p))) stack))"
    by simp
next
  fix g :: "'n graph" and n s :: "'n ID" and ss visited post :: "'n ID list"
    and stack :: "('n ID \<times> 'n ID list) list"
  assume "s \<in> set visited"
  then have "universe g ((n, ss) # stack) - set visited
           = universe g ((n, s # ss) # stack) - set visited"
    by (auto simp: universe_def)
  then show "((g, (n, ss) # stack, visited, post), (g, (n, s # ss) # stack, visited, post))
    \<in> inv_image (finite_psubset <*lex*> less_than)
    (\<lambda>(g, stack, visited, post).
       (universe g stack - set visited, size_list (\<lambda>p. Suc (length (snd p))) stack))"
    by simp
next
  fix g :: "'n graph" and n s :: "'n ID" and ss visited post :: "'n ID list"
    and stack :: "('n ID \<times> 'n ID list) list"
  assume s: "s \<notin> set visited"
  have sub: "set (Successors g s) \<subseteq> (\<Union>p \<in> set (outgoing g). set (snd p))"
    unfolding Successors_def by (rule adj_subset)
  have "universe g ((s, Successors g s) # (n, ss) # stack) - set (s # visited)
        \<subset> universe g ((n, s # ss) # stack) - set visited"
    using s sub by (auto simp: universe_def)
  then show "((g, (s, Successors g s) # (n, ss) # stack, s # visited, post),
              (g, (n, s # ss) # stack, visited, post))
    \<in> inv_image (finite_psubset <*lex*> less_than)
    (\<lambda>(g, stack, visited, post).
       (universe g stack - set visited, size_list (\<lambda>p. Suc (length (snd p))) stack))"
    by (simp add: finite_psubset_def finite_universe)
qed

definition DFS :: "'n graph \<Rightarrow> panic + 'n ID list" where
  "DFS g =
     (case root g of
        None \<Rightarrow> Inl NilDereference
      | Some r \<Rightarrow> Inr (snd (visit g [(r, Successors g r)] [r] [])))"

text \<open>
  \<open>InitOrder\<close>: the \<open>post\<close> callback stores \<open>num\<close> in the node and decrements it,
  starting from \<open>g.Len()\<close>.
\<close>

fun assignOrder :: "'n ID list \<Rightarrow> int \<Rightarrow> 'n store \<Rightarrow> 'n store" where
  "assignOrder [] num st = st"
| "assignOrder (n # ns) num st = assignOrder ns (num - 1) (st(n := (st n)\<lparr>Order := num\<rparr>))"

definition InitOrder :: "'n graph \<Rightarrow> 'n store \<Rightarrow> panic + 'n store" where
  "InitOrder g st =
     (case DFS g of
        Inl p \<Rightarrow> Inl p
      | Inr post \<Rightarrow> Inr (assignOrder post (int (Len g)) st))"

text \<open>
  The sort helpers. \<open>slices.SortFunc\<close> sorts a slice of at most twelve elements by
  insertion, which keeps equal elements in their order, as \<open>sort_key\<close> does.
\<close>

definition descReversePostOrder :: "'n store \<Rightarrow> 'n ID list \<Rightarrow> 'n ID list" where
  "descReversePostOrder st ns = sort_key (\<lambda>n. - Order (st n)) ns"

definition ascReversePostOrder :: "'n store \<Rightarrow> 'n ID list \<Rightarrow> 'n ID list" where
  "ascReversePostOrder st ns = sort_key (\<lambda>n. Order (st n)) ns"

section \<open>Queue and stack helpers\<close>

text \<open>
  \<open>queue\<close>: \<open>q_all\<close> holds the identifiers that have ever been pushed (the map
  \<open>all\<close>), \<open>q_nodes\<close> the nodes still in the queue. The stack is a list whose last
  element is the top.
\<close>

record 'n queue =
  q_all :: "'n ID list"
  q_nodes :: "'n ID list"

definition newQueue :: "'n queue" where
  "newQueue = \<lparr>q_all = [], q_nodes = []\<rparr>"

definition push :: "'n queue \<Rightarrow> 'n ID \<Rightarrow> 'n queue" where
  "push q n =
     (if n \<in> set (q_all q) then q
      else q\<lparr>q_all := q_all q @ [n], q_nodes := q_nodes q @ [n]\<rparr>)"

definition q_contains :: "'n queue \<Rightarrow> 'n ID \<Rightarrow> bool" where
  "q_contains q n = (n \<in> set (q_all q))"

section \<open>Intervals\<close>

text \<open>
  An interval keeps the graph it was computed on, its head and the table of its nodes,
  here in the order in which the nodes were added.
\<close>

record 'n Interval =
  i_graph :: "'n graph"
  i_head :: "'n ID"
  i_nodes :: "'n ID list"

definition NewInterval :: "'n ID \<Rightarrow> 'n graph \<Rightarrow> 'n Interval" where
  "NewInterval h g = \<lparr>i_graph = g, i_head = h, i_nodes = [h]\<rparr>"

definition add :: "'n Interval \<Rightarrow> 'n ID \<Rightarrow> 'n Interval" where
  "add i n = (if n \<in> set (i_nodes i) then i else i\<lparr>i_nodes := i_nodes i @ [n]\<rparr>)"

definition Contains :: "'n Interval \<Rightarrow> 'n ID \<Rightarrow> bool" where
  "Contains i n = (n \<in> set (i_nodes i))"

definition Interval_Nodes :: "'n Interval \<Rightarrow> 'n ID list" where
  "Interval_Nodes i = i_nodes i"

definition Interval_Predecessors :: "'n Interval \<Rightarrow> 'n ID \<Rightarrow> 'n ID list" where
  "Interval_Predecessors i n = filter (Contains i) (Predecessors (i_graph i) n)"

text \<open>
  \<open>findNodeWithImmediatePredecessorsInInterval\<close>: the first node, in the enumeration of
  the node table, that is not the root, is not in the interval and has all its
  predecessors in the interval. The loop body starts with \<open>g.Root().ID()\<close>, which
  panics on a graph without root as soon as there is a node to look at.
\<close>

definition findNodeWithImmediatePredecessorsInInterval ::
  "'n graph \<Rightarrow> 'n Interval \<Rightarrow> panic + 'n ID option" where
  "findNodeWithImmediatePredecessorsInInterval g interval =
     (case root g of
        None \<Rightarrow> (if nodes g = [] then Inr None else Inl NilDereference)
      | Some r \<Rightarrow>
          Inr (find (\<lambda>node. r \<noteq> node \<and> \<not> Contains interval node \<and>
                             list_all (Contains interval) (Predecessors g node))
                    (nodes g)))"

definition findUnprocessedNodeWithImmediatePredecessors ::
  "'n graph \<Rightarrow> 'n Interval \<Rightarrow> 'n queue \<Rightarrow> 'n ID option" where
  "findUnprocessedNodeWithImmediatePredecessors g interval headers =
     find (\<lambda>node. \<not> Contains interval node \<and> \<not> q_contains headers node \<and>
                   list_ex (Contains interval) (Predecessors g node))
          (nodes g)"

text \<open>
  The two inner loops of \<open>Intervals\<close>: \<open>grow\<close> is step 2.2 (add nodes to the
  interval until none qualifies), \<open>propose\<close> is step 3 (push new headers until none
  qualifies).
\<close>

lemma find_Some_set: "find P xs = Some x \<Longrightarrow> x \<in> set xs \<and> P x"
  by (induction xs) (auto split: if_splits)

function grow :: "'n graph \<Rightarrow> 'n Interval \<Rightarrow> panic + 'n Interval" where
  "grow g interval =
     (case findNodeWithImmediatePredecessorsInInterval g interval of
        Inl p \<Rightarrow> Inl p
      | Inr None \<Rightarrow> Inr interval
      | Inr (Some node) \<Rightarrow> grow g (add interval node))"
  by pat_completeness auto

termination
proof (relation "measure (\<lambda>(g, interval). card (set (nodes g) - set (i_nodes interval)))")
  show "wf (measure (\<lambda>(g, interval). card (set (nodes g) - set (i_nodes interval))))"
    by simp
next
  fix g :: "'n graph" and interval :: "'n Interval" and x2 :: "'n ID option" and node :: "'n ID"
  assume "findNodeWithImmediatePredecessorsInInterval g interval = Inr x2" and "x2 = Some node"
  then have f: "findNodeWithImmediatePredecessorsInInterval g interval = Inr (Some node)"
    by simp
  then have n: "node \<in> set (nodes g)" "node \<notin> set (i_nodes interval)"
    by (auto simp: findNodeWithImmediatePredecessorsInInterval_def Contains_def
        split: option.splits if_splits dest: find_Some_set)
  then have "set (nodes g) - set (i_nodes (add interval node))
             \<subset> set (nodes g) - set (i_nodes interval)"
    by (auto simp: add_def)
  then have "card (set (nodes g) - set (i_nodes (add interval node)))
             < card (set (nodes g) - set (i_nodes interval))"
    by (intro psubset_card_mono) auto
  then show "((g, add interval node), (g, interval))
    \<in> measure (\<lambda>(g, interval). card (set (nodes g) - set (i_nodes interval)))"
    by simp
qed

function propose :: "'n graph \<Rightarrow> 'n Interval \<Rightarrow> 'n queue \<Rightarrow> 'n queue" where
  "propose g interval headers =
     (case findUnprocessedNodeWithImmediatePredecessors g interval headers of
        None \<Rightarrow> headers
      | Some node \<Rightarrow> propose g interval (push headers node))"
  by pat_completeness auto

termination
proof (relation "measure (\<lambda>(g, interval, headers). card (set (nodes g) - set (q_all headers)))")
  show "wf (measure (\<lambda>(g, interval, headers). card (set (nodes g) - set (q_all headers))))"
    by simp
next
  fix g :: "'n graph" and interval :: "'n Interval" and headers :: "'n queue" and node :: "'n ID"
  assume "findUnprocessedNodeWithImmediatePredecessors g interval headers = Some node"
  then have n: "node \<in> set (nodes g)" "node \<notin> set (q_all headers)"
    by (auto simp: findUnprocessedNodeWithImmediatePredecessors_def q_contains_def
        dest: find_Some_set)
  then have "set (nodes g) - set (q_all (push headers node))
             \<subset> set (nodes g) - set (q_all headers)"
    by (auto simp: push_def)
  then have "card (set (nodes g) - set (q_all (push headers node)))
             < card (set (nodes g) - set (q_all headers))"
    by (intro psubset_card_mono) auto
  then show "((g, interval, push headers node), (g, interval, headers))
    \<in> measure (\<lambda>(g, interval, headers). card (set (nodes g) - set (q_all headers)))"
    by simp
qed

text \<open>
  What \<open>propose\<close> does to the queue: it only appends never-seen nodes of the graph, to
  \<open>q_all\<close> and \<open>q_nodes\<close> alike.
\<close>

lemma propose_appends:
  "\<exists>new. q_all (propose g interval headers) = q_all headers @ new \<and>
         q_nodes (propose g interval headers) = q_nodes headers @ new \<and>
         set new \<subseteq> set (nodes g) - set (q_all headers) \<and> distinct new"
proof (induction g interval headers rule: propose.induct)
  case (1 g interval headers)
  show ?case
  proof (cases "findUnprocessedNodeWithImmediatePredecessors g interval headers")
    case None
    then show ?thesis by (subst (1 2) propose.simps) simp
  next
    case (Some node)
    then have n: "node \<in> set (nodes g)" "node \<notin> set (q_all headers)"
      by (auto simp: findUnprocessedNodeWithImmediatePredecessors_def q_contains_def
          dest: find_Some_set)
    from "1.IH" [OF Some] obtain new where new:
      "q_all (propose g interval (push headers node)) = q_all (push headers node) @ new"
      "q_nodes (propose g interval (push headers node)) = q_nodes (push headers node) @ new"
      "set new \<subseteq> set (nodes g) - set (q_all (push headers node))" "distinct new"
      by blast
    have p: "propose g interval headers = propose g interval (push headers node)"
      using Some by (subst propose.simps) simp
    have "q_all (propose g interval headers) = q_all headers @ (node # new)"
      "q_nodes (propose g interval headers) = q_nodes headers @ (node # new)"
      "set (node # new) \<subseteq> set (nodes g) - set (q_all headers)" "distinct (node # new)"
      using new n unfolding p by (auto simp: push_def)
    then show ?thesis by blast
  qed
qed

text \<open>
  \<open>Intervals\<close>: \<open>headers.push(g.Root())\<close> dereferences the root, then the loop pops a
  header, grows its interval, proposes new headers and appends the interval.
\<close>

function intervalsLoop ::
  "'n graph \<Rightarrow> 'n queue \<Rightarrow> 'n Interval list \<Rightarrow> panic + 'n Interval list" where
  "intervalsLoop g headers intervals =
     (case q_nodes headers of
        [] \<Rightarrow> Inr intervals
      | h # rest \<Rightarrow>
          (case grow g (NewInterval h g) of
             Inl p \<Rightarrow> Inl p
           | Inr interval \<Rightarrow>
               intervalsLoop g (propose g interval (headers\<lparr>q_nodes := rest\<rparr>))
                 (intervals @ [interval])))"
  by pat_completeness auto

termination
proof (relation "inv_image (less_than <*lex*> less_than)
    (\<lambda>(g, headers, intervals).
       (card (set (nodes g) - set (q_all headers)), length (q_nodes headers)))")
  show "wf (inv_image (less_than <*lex*> less_than)
    (\<lambda>(g, headers, intervals).
       (card (set (nodes g) - set (q_all headers)), length (q_nodes headers))))"
    by (intro wf_inv_image wf_lex_prod wf_less_than)
next
  fix g :: "'n graph" and headers :: "'n queue" and intervals :: "'n Interval list"
    and h :: "'n ID" and rest :: "'n ID list" and interval :: "'n Interval"
  assume q: "q_nodes headers = h # rest"
  let ?q = "headers\<lparr>q_nodes := rest\<rparr>"
  obtain new where new:
    "q_all (propose g interval ?q) = q_all ?q @ new"
    "q_nodes (propose g interval ?q) = q_nodes ?q @ new"
    "set new \<subseteq> set (nodes g) - set (q_all ?q)"
    using propose_appends [of g interval ?q] by blast
  have "card (set (nodes g) - set (q_all (propose g interval ?q)))
          < card (set (nodes g) - set (q_all headers))
        \<or> (card (set (nodes g) - set (q_all (propose g interval ?q)))
             = card (set (nodes g) - set (q_all headers))
           \<and> length (q_nodes (propose g interval ?q)) < length (q_nodes headers))"
  proof (cases new)
    case Nil
    with new q show ?thesis by simp
  next
    case (Cons a as)
    with new have "set (nodes g) - set (q_all (propose g interval ?q))
                   \<subset> set (nodes g) - set (q_all headers)"
      by auto
    then have "card (set (nodes g) - set (q_all (propose g interval ?q)))
               < card (set (nodes g) - set (q_all headers))"
      by (intro psubset_card_mono) auto
    then show ?thesis ..
  qed
  then show "((g, propose g interval ?q, intervals @ [interval]), (g, headers, intervals))
    \<in> inv_image (less_than <*lex*> less_than)
    (\<lambda>(g, headers, intervals).
       (card (set (nodes g) - set (q_all headers)), length (q_nodes headers)))"
    by auto
qed

definition Intervals :: "'n graph \<Rightarrow> panic + 'n Interval list" where
  "Intervals g =
     (case root g of
        None \<Rightarrow> Inl NilDereference
      | Some r \<Rightarrow> intervalsLoop g (push newQueue r) [])"

section \<open>Derived sequence\<close>

text \<open>
  One round of the loop of \<open>DerivedSequence\<close> builds \<open>newGraph\<close> from \<open>prevGraph\<close>
  (\<open>graphs[i]\<close>, the graph appended last) and its intervals (\<open>intervals[i]\<close>).
  \<open>makeNodes\<close> is the first inner loop: one interval node per interval, numbered by
  \<open>count\<close>; it returns the new graph, the slice \<open>nodes\<close>, the variable \<open>root\<close> and
  \<open>count\<close>. \<open>predEdges\<close> and \<open>succEdges\<close> are the second and third inner loops;
  \<open>nodes[j]\<close> and \<open>nodes[k]\<close> are paired with the intervals by \<open>zip\<close>.
\<close>

fun makeNodes ::
  "('n::zero) Interval list \<Rightarrow> 'n graph \<Rightarrow> 'n ID list \<Rightarrow> 'n ID \<Rightarrow> int
     \<Rightarrow> 'n graph \<times> 'n ID list \<times> 'n ID \<times> int" where
  "makeNodes [] newGraph ns rt count = (newGraph, ns, rt, count)"
| "makeNodes (interval # is) newGraph ns rt count =
     (let node = interval_id count;
          newGraph1 = graph_Interval newGraph count
      in if rt = i_head interval
         then makeNodes is (SetRoot newGraph1 node) (ns @ [node]) node (count + 1)
         else makeNodes is newGraph1 (ns @ [node]) rt (count + 1))"

definition predEdges ::
  "'n graph \<Rightarrow> ('n Interval \<times> 'n ID) list \<Rightarrow> 'n graph \<Rightarrow> 'n graph" where
  "predEdges prevGraph ins newGraph =
     fold (\<lambda>(interval, node) ng.
             fold (\<lambda>pred ng.
                     if Contains interval pred then ng
                     else fold (\<lambda>(predInterval, nk) ng.
                                  if Contains predInterval pred then SetEdge ng nk node else ng)
                               ins ng)
                  (Predecessors prevGraph (i_head interval)) ng)
          ins newGraph"

definition succEdges ::
  "'n graph \<Rightarrow> ('n Interval \<times> 'n ID) list \<Rightarrow> 'n graph \<Rightarrow> 'n graph" where
  "succEdges prevGraph ins newGraph =
     fold (\<lambda>(interval, node) ng.
             fold (\<lambda>succ ng.
                     if Contains interval succ then ng
                     else fold (\<lambda>(succInterval, nk) ng.
                                  if Contains succInterval succ then SetEdge ng node nk else ng)
                               ins ng)
                  (Successors prevGraph (i_head interval)) ng)
          ins newGraph"

definition collapse ::
  "('n::zero) graph \<Rightarrow> 'n Interval list \<Rightarrow> 'n ID \<Rightarrow> int \<Rightarrow> 'n graph \<times> 'n ID \<times> int" where
  "collapse prevGraph prevIntervals rt count =
     (case makeNodes prevIntervals New [] rt count of
        (newGraph, ns, rt', count') \<Rightarrow>
          (succEdges prevGraph (zip prevIntervals ns)
             (predEdges prevGraph (zip prevIntervals ns) newGraph), rt', count'))"

text \<open>
  The loop \<open>for i := 0; ; i++\<close> has no bound of its own, so it is a partial function:
  \<open>None\<close> stands for a loop that never returns. \<open>Intervals(newGraph)\<close> may panic.
\<close>

partial_function (option) derivedLoop ::
  "('n::zero) graph \<Rightarrow> 'n Interval list \<Rightarrow> 'n ID \<Rightarrow> int \<Rightarrow> 'n graph list
     \<Rightarrow> 'n Interval list list \<Rightarrow> (panic + 'n graph list \<times> 'n Interval list list) option" where
  "derivedLoop prevGraph prevIntervals rt count graphs intervals =
     (case collapse prevGraph prevIntervals rt count of
        (newGraph, rt', count') \<Rightarrow>
          if Len newGraph = Len prevGraph then Some (Inr (graphs, intervals))
          else (case Intervals newGraph of
                  Inl p \<Rightarrow> Some (Inl p)
                | Inr newIntervals \<Rightarrow>
                    derivedLoop newGraph newIntervals rt' count'
                      (graphs @ [newGraph]) (intervals @ [newIntervals])))"

declare derivedLoop.simps [code]

definition DerivedSequence ::
  "('n::zero) graph \<Rightarrow> (panic + 'n graph list \<times> 'n Interval list list) option" where
  "DerivedSequence g =
     (case Intervals g of
        Inl p \<Rightarrow> Some (Inl p)
      | Inr is \<Rightarrow>
          (case root g of
             None \<Rightarrow> Some (Inl NilDereference)
           | Some r \<Rightarrow> derivedLoop g is r 0 [g] [is]))"

section \<open>Loop structurer\<close>

text \<open>
  \<open>getInterval\<close>: \<open>intervals[id.Idx]\<close> panics when the index is outside the slice.
\<close>

definition getInterval :: "'n ID \<Rightarrow> 'n Interval list \<Rightarrow> panic + 'n Interval option" where
  "getInterval i intervals =
     (if ID.Kind i \<noteq> IntervalNode then Inr None
      else if 0 \<le> Idx i \<and> nat (Idx i) < length intervals
        then Inr (Some (intervals ! nat (Idx i)))
      else Inl IndexOutOfRange)"

text \<open>
  \<open>findOrigHead\<close> calls itself on the head of the interval it finds; nothing in the code
  bounds the recursion, so it is a partial function.
\<close>

partial_function (option) findOrigHead ::
  "'n ID \<Rightarrow> 'n Interval list \<Rightarrow> (panic + 'n ID) option" where
  "findOrigHead h intervals =
     (case getInterval h intervals of
        Inl p \<Rightarrow> Some (Inl p)
      | Inr None \<Rightarrow> Some (Inr h)
      | Inr (Some i) \<Rightarrow> findOrigHead (i_head i) intervals)"

declare findOrigHead.simps [code]

text \<open>
  \<open>findNodeInInterval\<close>: the two nested loops run over the pairs (candidate, node of the
  interval), candidate by candidate; \<open>candPairs\<close> lists the pairs in that order and
  \<open>findNodeInIntervalLoop\<close> is the loop over what is left of them. For a candidate that
  is an interval node the function calls itself on that candidate's interval, with the
  same candidates; the recursion has no bound, so it is a partial function.
\<close>

definition candPairs :: "'n ID list \<Rightarrow> 'n Interval \<Rightarrow> ('n ID \<times> 'n ID) list" where
  "candPairs cands interval =
     concat (map (\<lambda>cand. map (\<lambda>node. (cand, node)) (Interval_Nodes interval)) cands)"

partial_function (option) findNodeInIntervalLoop ::
  "'n ID list \<Rightarrow> 'n Interval list \<Rightarrow> ('n ID \<times> 'n ID) list \<Rightarrow> (panic + 'n ID option) option" where
  "findNodeInIntervalLoop cands intervals pairs =
     (case pairs of
        [] \<Rightarrow> Some (Inr None)
      | (cand, node) # rest \<Rightarrow>
          (case getInterval cand intervals of
             Inl p \<Rightarrow> Some (Inl p)
           | Inr None \<Rightarrow>
               if Value node = Value cand then Some (Inr (Some node))
               else findNodeInIntervalLoop cands intervals rest
           | Inr (Some j) \<Rightarrow>
               Option.bind (findNodeInIntervalLoop cands intervals (candPairs cands j))
                 (\<lambda>r. case r of
                         Inl p \<Rightarrow> Some (Inl p)
                       | Inr (Some l) \<Rightarrow> Some (Inr (Some l))
                       | Inr None \<Rightarrow> findNodeInIntervalLoop cands intervals rest)))"

declare findNodeInIntervalLoop.simps [code]

definition findNodeInInterval ::
  "'n ID list \<Rightarrow> 'n Interval \<Rightarrow> 'n Interval list \<Rightarrow> (panic + 'n ID option) option" where
  "findNodeInInterval cands interval intervals =
     findNodeInIntervalLoop cands intervals (candPairs cands interval)"

text \<open>
  \<open>findOrigLatch\<close>: when the search finds no node the code calls \<open>panic\<close>.
\<close>

definition findOrigLatch ::
  "'n ID \<Rightarrow> 'n ID list \<Rightarrow> 'n Interval list \<Rightarrow> (panic + 'n ID) option" where
  "findOrigLatch latch cands intervals =
     (case getInterval latch intervals of
        Inl p \<Rightarrow> Some (Inl p)
      | Inr None \<Rightarrow> Some (Inr latch)
      | Inr (Some i) \<Rightarrow>
          (case findNodeInInterval cands i intervals of
             None \<Rightarrow> None
           | Some (Inl p) \<Rightarrow> Some (Inl p)
           | Some (Inr None) \<Rightarrow> Some (Inl LatchNotFound)
           | Some (Inr (Some l)) \<Rightarrow> Some (Inr l)))"

text \<open>
  \<open>findLatch\<close>. \<open>pickLatch\<close> is its loop over the predecessors of the head inside the
  interval. The result \<open>Inr None\<close> is the return \<open>nil, nil, false\<close>, and
  \<open>Inr (Some (head, latch))\<close> a return with \<open>true\<close>.
\<close>

definition pickLatch :: "'n store \<Rightarrow> 'n ID list \<Rightarrow> 'n ID option" where
  "pickLatch st preds =
     fold (\<lambda>pred latch.
             case latch of
               None \<Rightarrow> Some pred
             | Some l \<Rightarrow> if Order (st pred) > Order (st l) then Some pred else Some l)
          preds None"

definition findLatch ::
  "'n graph \<Rightarrow> 'n Interval \<Rightarrow> 'n Interval list list \<Rightarrow> 'n store
     \<Rightarrow> (panic + ('n ID \<times> 'n ID) option) option" where
  "findLatch g interval intervals st =
     (let iis = concat intervals in
      case pickLatch st (Interval_Predecessors interval (i_head interval)) of
        None \<Rightarrow> Some (Inr None)
      | Some latch \<Rightarrow>
          (case GetNode g (Value latch) of
             Some l \<Rightarrow> Some (Inr (Some (i_head interval, l)))
           | None \<Rightarrow>
               (case findOrigHead (i_head interval) iis of
                  None \<Rightarrow> None
                | Some (Inl p) \<Rightarrow> Some (Inl p)
                | Some (Inr h) \<Rightarrow>
                    (let cands = takeWhile (\<lambda>cand. \<not> Order (st cand) < Order (st h))
                                   (descReversePostOrder st (Predecessors g h))
                     in case findOrigLatch latch cands iis of
                          None \<Rightarrow> None
                        | Some (Inl p) \<Rightarrow> Some (Inl p)
                        | Some (Inr l) \<Rightarrow> Some (Inr (Some (h, l)))))))"

text \<open>
  \<open>markNodesInLoop\<close> returns the nodes of the loop and the store with the marks set.
  \<open>markLoop\<close> is its loop over the nodes in ascending order, with the \<open>break\<close> at the
  first node whose order exceeds the latch's.
\<close>

fun markLoop ::
  "'n tree \<Rightarrow> 'n ID \<Rightarrow> 'n ID \<Rightarrow> 'n ID list \<Rightarrow> 'n ID list \<times> 'n store \<Rightarrow> 'n ID list \<times> 'n store" where
  "markLoop dt h latch [] acc = acc"
| "markLoop dt h latch (node # rest) (ns, st) =
     (let acc = (if Order (st h) < Order (st node) \<and> Order (st node) \<le> Order (st latch)
                    \<and> Dominates dt h node
                 then (ns @ [node], st(node := (st node)\<lparr>IsLoopNode := True\<rparr>))
                 else (ns, st))
      in if Order (st node) > Order (st latch) then acc
         else markLoop dt h latch rest acc)"

definition markNodesInLoop ::
  "'n graph \<Rightarrow> 'n ID \<Rightarrow> 'n ID \<Rightarrow> 'n tree \<Rightarrow> 'n store \<Rightarrow> 'n ID list \<times> 'n store" where
  "markNodesInLoop g h latch dt st =
     markLoop dt h latch (ascReversePostOrder st (nodes g))
       ([h], st(h := (st h)\<lparr>IsLoopNode := True, IsLoopHead := True\<rparr>))"

text \<open>
  The primitive that \<open>StructureLoops\<close> builds once kind and follow are known. \<open>Exit\<close>
  keeps the zero value when there is no follow. The removal loop compares each node with
  the follow by pointer; the nodes of a loop are distinct, so it deletes the one
  occurrence of the follow, and nothing when the follow is \<open>nil\<close>.
\<close>

definition loopPrimitive ::
  "PrimitiveKind \<Rightarrow> ('n::zero) ID \<Rightarrow> 'n ID \<Rightarrow> 'n ID option \<Rightarrow> 'n ID list \<Rightarrow> 'n Primitive" where
  "loopPrimitive kind h latch follow ns =
     \<lparr>Kind = kind,
      Entry = Value h,
      Body = map Value (case follow of None \<Rightarrow> ns | Some f \<Rightarrow> remove1 f ns),
      Exit = (case follow of None \<Rightarrow> 0 | Some f \<Rightarrow> Value f),
      Extra = (case follow of
                 None \<Rightarrow> [''latch'' \<mapsto> Value latch]
               | Some f \<Rightarrow> [''latch'' \<mapsto> Value latch, ''follow'' \<mapsto> Value f])\<rparr>"

text \<open>
  The body of the inner loop of \<open>StructureLoops\<close> for one interval, on the primitives
  and errors collected so far and the store; \<open>graphs[0]\<close> is \<open>g\<close>. This is the
  definition that calls \<open>findLoopFollow\<close> without the dominator tree.
\<close>

definition structureInterval ::
  "('n::zero) graph \<Rightarrow> 'n tree \<Rightarrow> 'n Interval list list \<Rightarrow> 'n Interval
     \<Rightarrow> 'n Primitive list \<times> error list \<times> 'n store
     \<Rightarrow> (panic + 'n Primitive list \<times> error list \<times> 'n store) option" where
  "structureInterval g dt intervals interval acc =
     (case acc of (prims, errs, st) \<Rightarrow>
      case findLatch g interval intervals st of
        None \<Rightarrow> None
      | Some (Inl p) \<Rightarrow> Some (Inl p)
      | Some (Inr None) \<Rightarrow> Some (Inr acc)
      | Some (Inr (Some (h, latch))) \<Rightarrow>
          if IsLoopNode (st latch) then Some (Inr acc)
          else
            (case markNodesInLoop g h latch dt (st(latch := (st latch)\<lparr>IsLoopLatch := True\<rparr>)) of
               (ns, st') \<Rightarrow>
                 (case findLoopKind g h latch ns of
                    Inl e \<Rightarrow> Some (Inr (prims, errs @ [e], st'))
                  | Inr kind \<Rightarrow>
                      (case findLoopFollow g kind h latch ns st' of
                         Inl p \<Rightarrow> Some (Inl p)
                       | Inr (Inl e) \<Rightarrow> Some (Inr (prims, errs @ [e], st'))
                       | Inr (Inr follow) \<Rightarrow>
                           Some (Inr (prims @ [loopPrimitive kind h latch follow ns],
                                      errs, st'))))))"

fun structureIntervals ::
  "('n::zero) graph \<Rightarrow> 'n tree \<Rightarrow> 'n Interval list list \<Rightarrow> 'n Interval list
     \<Rightarrow> 'n Primitive list \<times> error list \<times> 'n store
     \<Rightarrow> (panic + 'n Primitive list \<times> error list \<times> 'n store) option" where
  "structureIntervals g dt intervals [] acc = Some (Inr acc)"
| "structureIntervals g dt intervals (interval # rest) acc =
     (case structureInterval g dt intervals interval acc of
        None \<Rightarrow> None
      | Some (Inl p) \<Rightarrow> Some (Inl p)
      | Some (Inr acc') \<Rightarrow> structureIntervals g dt intervals rest acc')"

text \<open>
  \<open>StructureLoops\<close> visits \<open>intervals[i]\<close> for each index \<open>i\<close> of \<open>graphs\<close>. It
  returns the primitives, the errors it joins (the empty list is the \<open>nil\<close> error) and
  the store with the loop marks.
\<close>

definition StructureLoops ::
  "('n::zero) graph \<Rightarrow> 'n tree \<Rightarrow> 'n store
     \<Rightarrow> (panic + 'n Primitive list \<times> error list \<times> 'n store) option" where
  "StructureLoops g dt st =
     (case DerivedSequence g of
        None \<Rightarrow> None
      | Some (Inl p) \<Rightarrow> Some (Inl p)
      | Some (Inr (graphs, intervals)) \<Rightarrow>
          structureIntervals g dt intervals (concat (take (length graphs) intervals))
            ([], [], st))"

section \<open>Two-way conditional structurer\<close>

definition pickFollow :: "'n graph \<Rightarrow> 'n store \<Rightarrow> 'n ID list \<Rightarrow> 'n ID option" where
  "pickFollow g st ds =
     fold (\<lambda>n follow.
             if length (Predecessors g n) < 2 then follow
             else case follow of
                    None \<Rightarrow> Some n
                  | Some f \<Rightarrow> if Order (st f) < Order (st n) then Some n else Some f)
          ds None"

text \<open>
  One round of the loop of \<open>StructureTwoWayConditionals\<close>, on the primitives and the
  stack \<open>unresolved\<close> (top last); draining the stack pops from the top.
\<close>

definition twoWayStep ::
  "'n graph \<Rightarrow> 'n tree \<Rightarrow> 'n store \<Rightarrow> 'n ID
     \<Rightarrow> 'n Primitive list \<times> 'n ID list \<Rightarrow> 'n Primitive list \<times> 'n ID list" where
  "twoWayStep g dt st node acc =
     (case acc of (prims, unresolved) \<Rightarrow>
      if length (Successors g node) = 2 \<and> \<not> IsLoopHead (st node) \<and> \<not> IsLoopLatch (st node)
      then (case pickFollow g st (DominatedBy dt node) of
              Some follow \<Rightarrow>
                (prims @ [\<lparr>Kind = TwoWayConditional,
                           Entry = Value node,
                           Body = map Value (rev unresolved),
                           Exit = Value follow,
                           Extra = [''cond'' \<mapsto> Value node, ''follow'' \<mapsto> Value follow]\<rparr>],
                 [])
            | None \<Rightarrow> (prims, unresolved @ [node]))
      else acc)"

definition StructureTwoWayConditionals ::
  "'n graph \<Rightarrow> 'n tree \<Rightarrow> 'n store \<Rightarrow> 'n Primitive list" where
  "StructureTwoWayConditionals g dt st =
     fst (fold (twoWayStep g dt st) (descReversePostOrder st (nodes g)) ([], []))"

section \<open>Structure\<close>

text \<open>
  \<open>Structure\<close> on a graph whose node objects hold the state \<open>st\<close> (\<open>fresh_store\<close>
  for a graph that was just built). The result is \<open>None\<close> when the call never returns,
  a panic, or the primitives with the list of errors that \<open>errors.Join\<close> receives.
\<close>

definition Structure ::
  "('n::zero) graph \<Rightarrow> 'n store \<Rightarrow> (panic + 'n Primitive list \<times> error list) option" where
  "Structure g st =
     (case InitOrder g st of
        Inl p \<Rightarrow> Some (Inl p)
      | Inr st1 \<Rightarrow>
          (let dt = dominator_New g in
           case StructureLoops g dt st1 of
             None \<Rightarrow> None
           | Some (Inl p) \<Rightarrow> Some (Inl p)
           | Some (Inr (loops, errs, st2)) \<Rightarrow>
               Some (Inr (loops @ StructureTwoWayConditionals g dt st2, errs))))"

section \<open>Example graphs\<close>

text \<open>
  The graphs of the scenarios, built as the tests build theirs: the nodes first, then the
  edges. \<open>scenarioA\<close> is the graph of the interval test, \<open>scenarioF\<close> the if-else-if
  chain. \<open>nested3\<close> has three nested loops: \<open>3 \<rightarrow> 4 \<rightarrow> 3\<close> inside \<open>2 \<rightarrow> 3 \<rightarrow> 2\<close>
  inside \<open>1 \<rightarrow> 2 \<rightarrow> 3 \<rightarrow> 4 \<rightarrow> 1\<close>.
\<close>

definition scenarioA :: "int graph" where
  "scenarioA =
     (let g = SetRoot (Node New 1) (node_id 1);
          g = Node (Node (Node (Node (Node g 2) 3) 4) 5) 6;
          g = SetEdge g (node_id 1) (node_id 2);
          g = SetEdge g (node_id 2) (node_id 3);
          g = SetEdge g (node_id 3) (node_id 4);
          g = SetEdge g (node_id 4) (node_id 2);
          g = SetEdge g (node_id 2) (node_id 5);
          g = SetEdge g (node_id 5) (node_id 6);
          g = SetEdge g (node_id 6) (node_id 1)
      in g)"

definition scenarioF :: "int graph" where
  "scenarioF =
     (let g = SetRoot (Node New 1) (node_id 1);
          g = Node (Node (Node (Node (Node g 2) 3) 4) 5) 6;
          g = SetEdge g (node_id 1) (node_id 2);
          g = SetEdge g (node_id 1) (node_id 3);
          g = SetEdge g (node_id 3) (node_id 4);
          g = SetEdge g (node_id 3) (node_id 5);
          g = SetEdge g (node_id 4) (node_id 6);
          g = SetEdge g (node_id 5) (node_id 6);
          g = SetEdge g (node_id 2) (node_id 6)
      in g)"

definition nested3 :: "int graph" where
  "nested3 =
     (let g = SetRoot (Node New 1) (node_id 1);
          g = Node (Node (Node g 2) 3) 4;
          g = SetEdge g (node_id 1) (node_id 2);
          g = SetEdge g (node_id 2) (node_id 3);
          g = SetEdge g (node_id 3) (node_id 4);
          g = SetEdge g (node_id 3) (node_id 2);
          g = SetEdge g (node_id 4) (node_id 3);
          g = SetEdge g (node_id 4) (node_id 1)
      in g)"

text \<open>
  \<open>diamond_loop\<close> is an endless loop \<open>2 \<rightarrow> 3 \<rightarrow> {4, 5} \<rightarrow> 6 \<rightarrow> 2\<close> below the root 1.
  \<open>diamond_loop_swapped\<close> is the same graph, built by the same calls, in a run where
  the successor table of node 3 is enumerated as 5, 4 instead of 4, 5.
\<close>

definition diamond_loop :: "int graph" where
  "diamond_loop =
     (let g = SetRoot (Node New 1) (node_id 1);
          g = Node (Node (Node (Node (Node g 2) 3) 4) 5) 6;
          g = SetEdge g (node_id 1) (node_id 2);
          g = SetEdge g (node_id 2) (node_id 3);
          g = SetEdge g (node_id 3) (node_id 4);
          g = SetEdge g (node_id 3) (node_id 5);
          g = SetEdge g (node_id 4) (node_id 6);
          g = SetEdge g (node_id 5) (node_id 6);
          g = SetEdge g (node_id 6) (node_id 2)
      in g)"



text \<open>
  Two endless loops \<open>2 \<rightarrow> \<dots> \<rightarrow> 2\<close> below the root 1: in \<open>endless_plain\<close> no node of
  the loop has two successors; in \<open>endless_exit0\<close> node 3 of the loop also leads to the
  node with value 0, outside the loop.
\<close>

definition endless_plain :: "int graph" where
  "endless_plain =
     (let g = SetRoot (Node New 1) (node_id 1);
          g = Node (Node g 2) 3;
          g = SetEdge g (node_id 1) (node_id 2);
          g = SetEdge g (node_id 2) (node_id 3);
          g = SetEdge g (node_id 3) (node_id 2)
      in g)"

definition endless_exit0 :: "int graph" where
  "endless_exit0 =
     (let g = SetRoot (Node New 1) (node_id 1);
          g = Node (Node (Node (Node g 2) 3) 4) 0;
          g = SetEdge g (node_id 1) (node_id 2);
          g = SetEdge g (node_id 2) (node_id 3);
          g = SetEdge g (node_id 3) (node_id 0);
          g = SetEdge g (node_id 3) (node_id 4);
          g = SetEdge g (node_id 4) (node_id 2)
      in g)"

text \<open>
  Names for what a run on a freshly built graph computes: the store after
  \<open>g.InitOrder()\<close>, and the interval lists of the derived sequence.
\<close>

definition initial_order :: "'n graph \<Rightarrow> 'n store" where
  "initial_order g = (case InitOrder g fresh_store of Inr st \<Rightarrow> st | Inl p \<Rightarrow> fresh_store)"

definition derived_intervals :: "('n::zero) graph \<Rightarrow> 'n Interval list list" where
  "derived_intervals g =
     (case DerivedSequence g of Some (Inr (graphs, intervals)) \<Rightarrow> intervals | _ \<Rightarrow> [])"

text \<open>
  An explicit dominator tree, as a caller of \<open>StructureLoops\<close> passes it, given by its
  table of immediate dominators (node, immediate dominator); a node without entry is
  its own dominator, as the root is. \<open>chain\<close> lists a node and its dominators.
\<close>

fun chain :: "('a \<times> 'a) list \<Rightarrow> nat \<Rightarrow> 'a \<Rightarrow> 'a list" where
  "chain tab 0 b = [b]"
| "chain tab (Suc k) b = b # (case map_of tab b of None \<Rightarrow> [] | Some d \<Rightarrow> chain tab k d)"

definition tree_of_table :: "('n ID \<times> 'n ID) list \<Rightarrow> 'n tree" where
  "tree_of_table tab =
     \<lparr>DominatorOf = (\<lambda>n. case map_of tab n of None \<Rightarrow> n | Some d \<Rightarrow> d),
      Dominates = (\<lambda>a b. a \<in> set (chain tab (length tab) b)),
      DominatedBy = (\<lambda>n. map fst (filter (\<lambda>p. snd p = n) tab))\<rparr>"

definition while_tree :: "int tree" where
  "while_tree = tree_of_table
     [(node_id 2, node_id 1), (node_id 3, node_id 2), (node_id 4, node_id 2)]"

definition closed_tree :: "int tree" where
  "closed_tree = tree_of_table
     [(node_id 2, node_id 1), (node_id 3, node_id 2), (node_id 4, node_id 2)]"

definition endless_plain_tree :: "int tree" where
  "endless_plain_tree = tree_of_table [(node_id 2, node_id 1), (node_id 3, node_id 2)]"

definition endless_exit0_tree :: "int tree" where
  "endless_exit0_tree = tree_of_table
     [(node_id 2, node_id 1), (node_id 3, node_id 2), (node_id 4, node_id 3),
      (node_id 0, node_id 3)]"

section \<open>Reachability\<close>

text \<open>
  The edge relation of a graph and the set of nodes reachable from a node; \<open>dfs_inv\<close>
  is the invariant of the depth-first search from \<open>r\<close>: finished nodes and the nodes
  on the call stack are the visited ones, the successors of a finished node and the
  successors that a frame has gone through are visited, every visited node is reachable,
  and the bottom frame is the call on \<open>r\<close>.
\<close>

definition edges :: "'n graph \<Rightarrow> ('n ID \<times> 'n ID) set" where
  "edges g = {(a, b). b \<in> set (Successors g a)}"

definition reachable :: "'n graph \<Rightarrow> 'n ID \<Rightarrow> 'n ID set" where
  "reachable g r = {n. (r, n) \<in> (edges g)\<^sup>*}"

definition dfs_inv ::
  "'n graph \<Rightarrow> 'n ID \<Rightarrow> ('n ID \<times> 'n ID list) list \<Rightarrow> 'n ID list \<Rightarrow> 'n ID list \<Rightarrow> bool" where
  "dfs_inv g r stack visited post \<longleftrightarrow>
     distinct post \<and> distinct (map fst stack) \<and>
     set visited = set post \<union> fst ` set stack \<and>
     set post \<inter> fst ` set stack = {} \<and>
     (\<forall>n \<in> set post. set (Successors g n) \<subseteq> set visited) \<and>
     (\<forall>fr \<in> set stack. set (Successors g (fst fr)) \<subseteq> set visited \<union> set (snd fr) \<and>
                          set (snd fr) \<subseteq> set (Successors g (fst fr))) \<and>
     set visited \<subseteq> reachable g r \<and>
     (if stack = [] then post \<noteq> [] \<and> last post = r else fst (last stack) = r)"

text \<open>
  \<open>isolated_graph\<close>: root 1 with the edge \<open>1 \<rightarrow> 2\<close>, and a node 3 without edges.
\<close>

definition isolated_graph :: "int graph" where
  "isolated_graph =
     (let g = SetRoot (Node New 1) (node_id 1);
          g = Node (Node g 2) 3;
          g = SetEdge g (node_id 1) (node_id 2)
      in g)"

text \<open>
  \<open>derived_chain\<close> states what the loop of \<open>DerivedSequence\<close> keeps true of the two
  lists it builds: they have the same length; level \<open>i\<close> holds the intervals of graph
  \<open>i\<close>, which are at most as many as its nodes; and graph \<open>i + 1\<close> has one node per
  interval of graph \<open>i\<close> and fewer nodes than graph \<open>i\<close>.
\<close>

definition derived_chain :: "'n graph list \<Rightarrow> 'n Interval list list \<Rightarrow> bool" where
  "derived_chain graphs intervals \<longleftrightarrow>
     length intervals = length graphs \<and> graphs \<noteq> [] \<and>
     (\<forall>i < length graphs. Intervals (graphs ! i) = Inr (intervals ! i) \<and>
                           length (intervals ! i) \<le> Len (graphs ! i)) \<and>
     (\<forall>i. Suc i < length graphs \<longrightarrow>
         Len (graphs ! Suc i) = length (intervals ! i) \<and>
         Len (graphs ! Suc i) < Len (graphs ! i))"

section \<open>Invariant of the interval computation\<close>

text \<open>
  \<open>members\<close> is the node set of an interval. An interval is \<open>grown\<close> when it holds
  its head and every other member is a node of the graph, not the root, has a
  predecessor, and has all its predecessors in the interval. \<open>intervals_inv\<close> is the
  invariant of the loop of \<open>Intervals\<close> on the finished intervals \<open>acc\<close> and the queue
  \<open>headers\<close>.
\<close>

definition members :: "'n Interval \<Rightarrow> 'n ID set" where
  "members i = set (i_nodes i)"

definition grown :: "'n graph \<Rightarrow> 'n ID \<Rightarrow> 'n Interval \<Rightarrow> bool" where
  "grown g r i \<longleftrightarrow>
     i_head i \<in> members i \<and>
     (\<forall>n \<in> members i. n = i_head i \<or>
        (n \<noteq> r \<and> n \<in> set (nodes g) \<and> Predecessors g n \<noteq> [] \<and>
         set (Predecessors g n) \<subseteq> members i))"

definition intervals_inv ::
  "'n graph \<Rightarrow> 'n ID \<Rightarrow> 'n Interval list \<Rightarrow> 'n queue \<Rightarrow> bool" where
  "intervals_inv g r acc headers \<longleftrightarrow>
     set (q_all headers) = i_head ` set acc \<union> set (q_nodes headers) \<and>
     distinct (map i_head acc @ q_nodes headers) \<and>
     set (q_all headers) \<subseteq> set (nodes g) \<inter> reachable g r \<and>
     (\<forall>i \<in> set acc. grown g r i \<and> members i \<subseteq> reachable g r) \<and>
     (\<forall>i \<in> set acc. \<forall>j \<in> set acc. i_head i \<noteq> i_head j \<longrightarrow> members i \<inter> members j = {}) \<and>
     (\<forall>h \<in> set (q_nodes headers). \<forall>i \<in> set acc. h \<notin> members i) \<and>
     (\<forall>h \<in> set (q_all headers).
         h = r \<or> (\<exists>i \<in> set acc. \<exists>p \<in> set (Predecessors g h). p \<in> members i)) \<and>
     (\<forall>i \<in> set acc. \<forall>n \<in> set (nodes g).
         n \<notin> members i \<and> (\<exists>p \<in> set (Predecessors g n). p \<in> members i)
           \<longrightarrow> n \<in> set (q_all headers))"

text \<open>
  \<open>graph_ok g r\<close>: the root of \<open>g\<close> is \<open>r\<close>, a node of the graph; every edge leads
  to a node of the graph; the tables \<open>outgoing\<close> and \<open>incoming\<close> mirror each other, as
  \<open>SetEdge\<close> keeps them; and every node other than the root has a predecessor.
\<close>

definition graph_ok :: "'n graph \<Rightarrow> 'n ID \<Rightarrow> bool" where
  "graph_ok g r \<longleftrightarrow>
     root g = Some r \<and> r \<in> set (nodes g) \<and>
     list_all (\<lambda>e. list_all (\<lambda>b. b \<in> set (nodes g) \<and> fst e \<in> set (Predecessors g b)) (snd e))
       (outgoing g) \<and>
     list_all (\<lambda>e. list_all (\<lambda>a. fst e \<in> set (Successors g a)) (snd e)) (incoming g) \<and>
     list_all (\<lambda>n. n = r \<or> Predecessors g n \<noteq> []) (nodes g)"

text \<open>
  \<open>isolated_loop\<close>: root 1, the edges \<open>1 \<rightarrow> 2\<close> and \<open>2 \<rightarrow> 2\<close>, and a node 3 without
  edges.
\<close>

definition isolated_loop :: "int graph" where
  "isolated_loop =
     (let g = SetRoot (Node New 1) (node_id 1);
          g = Node (Node g 2) 3;
          g = SetEdge g (node_id 1) (node_id 2);
          g = SetEdge g (node_id 2) (node_id 2)
      in g)"

text \<open>
  One round of the inner loop of \<open>StructureLoops\<close> that emits a primitive:
  \<open>loop_run\<close> holds of the interval of the round, the store \<open>st\<close> at its start and the
  values the round computes, namely the head and the latch that \<open>findLatch\<close> returns,
  the loop nodes \<open>ns\<close> of \<open>markNodesInLoop\<close>, the kind of \<open>findLoopKind\<close> and the
  follow of \<open>findLoopFollow\<close>. The primitive of the round is
  \<open>loopPrimitive kind h latch follow ns\<close>. \<open>loop_intervals\<close> lists the intervals in
  the order in which \<open>StructureLoops\<close> visits them.
\<close>

definition loop_run ::
  "'n graph \<Rightarrow> 'n tree \<Rightarrow> 'n Interval list list \<Rightarrow> 'n Interval \<Rightarrow> 'n store
     \<Rightarrow> 'n ID \<Rightarrow> 'n ID \<Rightarrow> 'n ID list \<Rightarrow> PrimitiveKind \<Rightarrow> 'n ID option \<Rightarrow> bool" where
  "loop_run g dt intervals interval st h latch ns kind follow \<longleftrightarrow>
     findLatch g interval intervals st = Some (Inr (Some (h, latch))) \<and>
     \<not> IsLoopNode (st latch) \<and>
     ns = fst (markNodesInLoop g h latch dt (st(latch := (st latch)\<lparr>IsLoopLatch := True\<rparr>))) \<and>
     findLoopKind g h latch ns = Inr kind \<and>
     findLoopFollow g kind h latch ns
       (snd (markNodesInLoop g h latch dt (st(latch := (st latch)\<lparr>IsLoopLatch := True\<rparr>))))
       = Inr (Inr follow)"

definition loop_intervals :: "('n::zero) graph \<Rightarrow> 'n Interval list" where
  "loop_intervals g =
     (case DerivedSequence g of
        Some (Inr (graphs, intervals)) \<Rightarrow> concat (take (length graphs) intervals)
      | _ \<Rightarrow> [])"

text \<open>
  \<open>emitted\<close>: the primitive \<open>p\<close> is the primitive of a round on one of the intervals
  \<open>is\<close>, which starts in the store that the rounds on the intervals before it leave.
\<close>

definition emitted ::
  "('n::zero) graph \<Rightarrow> 'n tree \<Rightarrow> 'n Interval list list \<Rightarrow> 'n Interval list
     \<Rightarrow> 'n Primitive list \<times> error list \<times> 'n store \<Rightarrow> 'n Primitive \<Rightarrow> bool" where
  "emitted g dt intervals is acc p \<longleftrightarrow>
     (\<exists>pre interval rest prims1 errs1 st1 h latch ns kind follow.
        is = pre @ interval # rest \<and>
        structureIntervals g dt intervals pre acc = Some (Inr (prims1, errs1, st1)) \<and>
        loop_run g dt intervals interval st1 h latch ns kind follow \<and>
        p = loopPrimitive kind h latch follow ns)"

text \<open>
  \<open>orphan_latch\<close>: node 2 has the edge \<open>2 \<rightarrow> 1\<close> to the root and no predecessor, so
  no path from the root reaches it; node 3 is the successor of the root.
\<close>

definition orphan_latch :: "int graph" where
  "orphan_latch =
     (let g = SetRoot (Node New 1) (node_id 1);
          g = Node (Node g 2) 3;
          g = SetEdge g (node_id 1) (node_id 3);
          g = SetEdge g (node_id 2) (node_id 1)
      in g)"

definition orphan_latch_tree :: "int tree" where
  "orphan_latch_tree = tree_of_table [(node_id 3, node_id 1)]"

text \<open>
  \<open>derived_graphs\<close> names the graphs of the derived sequence, as \<open>derived_intervals\<close>
  names its interval lists.
\<close>

definition derived_graphs :: "('n::zero) graph \<Rightarrow> 'n graph list" where
  "derived_graphs g =
     (case DerivedSequence g of Some (Inr (graphs, intervals)) \<Rightarrow> graphs | _ \<Rightarrow> [])"

section \<open>Theorems\<close>

subsection \<open>C6: fan-out errors of findLoopKind\<close>

text \<open>
  C6, as stated, fails: when the head and the latch are the same node, \<open>findLoopKind\<close>
  returns \<open>PostTestedLoop\<close> before it looks at any successor count. In
  \<open>fanout3_graph\<close> node 2 is its own latch and has three successors.
\<close>

theorem findLoopKind_self_loop_counterexample:
  "length (Successors fanout3_graph (node_id 2)) = 3 \<and>
   findLoopKind fanout3_graph (node_id 2) (node_id 2) [node_id 2] = Inr PostTestedLoop"
  by code_simp

text \<open>
  C6 (amended): for a loop whose head and latch are distinct nodes, a head or latch whose
  successor count is neither 1 nor 2 makes \<open>findLoopKind\<close> return an unsupported
  fan-out error and no loop kind; when the head and the latch are the same node it
  returns \<open>PostTestedLoop\<close> whatever the successor count.
\<close>

theorem findLoopKind_fanout:
  "(head \<noteq> latch \<longrightarrow>
      (length (Successors g head) \<notin> {1, 2} \<or> length (Successors g latch) \<notin> {1, 2}) \<longrightarrow>
      (\<exists>e. findLoopKind g head latch ns = Inl e \<and> isUnsupportedFanOut e)) \<and>
   findLoopKind g head head ns = Inr PostTestedLoop"
  by (auto simp: findLoopKind_def Let_def)

theorem findLoopKind_fanout_witness:
  "node_id (1::int) \<noteq> node_id 2 \<and>
   length (Successors fanout3_graph (node_id 2)) \<notin> {1, 2} \<and>
   (\<exists>e. findLoopKind fanout3_graph (node_id 1) (node_id 2) [node_id 1] = Inl e
        \<and> isUnsupportedFanOut e) \<and>
   findLoopKind fanout3_graph (node_id 1) (node_id 1) [node_id 1] = Inr PostTestedLoop"
proof -
  have ne: "node_id (1::int) \<noteq> node_id 2"
    by (simp add: node_id_def)
  have len: "length (Successors fanout3_graph (node_id 2)) = 3"
    by code_simp
  from findLoopKind_fanout [of "node_id 1" "node_id 2" fanout3_graph "[node_id 1]"] ne len
  show ?thesis by simp
qed

subsection \<open>C9: the two definitions of findLoopFollow\<close>

text \<open>
  C9, as stated, fails: in \<open>closed_graph\<close> the loop with head 2 and latch 4 is
  pre-tested and both successors of the head, enumerated as 3 and 4, are in the loop. The
  definition without the dominator tree returns the second successor, 4, which is the
  latch; the definition with the dominator tree refuses the latch and returns 3.
\<close>

theorem findLoopFollow_versions_counterexample:
  "findLoopFollow closed_graph PreTestedLoop (node_id 2) (node_id 4)
     [node_id 2, node_id 3, node_id 4] fresh_store = Inr (Inr (Some (node_id 4))) \<and>
   findLoopFollow_dom closed_graph PreTestedLoop (node_id 2) (node_id 4)
     [node_id 2, node_id 3, node_id 4] closed_tree fresh_store
     = Some (Inr (Inr (Some (node_id 3))))"
  by code_simp

text \<open>
  C9 (amended): for every loop kind other than \<open>PreTestedLoop\<close> the two definitions
  return the same follow node (or the same absence) and the same error. For a pre-tested
  loop whose head has the distinct successors \<open>h0\<close>, \<open>h1\<close> (and possibly more) and whose walk up
  the dominator tree from the latch ends at a node \<open>t\<close>, they return the same result
  exactly when: if \<open>h0\<close> is in the loop then \<open>h1\<close> is neither the latch nor \<open>t\<close>, and
  if \<open>h1\<close> is in the loop and \<open>h0\<close> is not then \<open>h0\<close> is not the latch.
\<close>

theorem findLoopFollow_agree:
  "(kind \<noteq> PreTestedLoop \<longrightarrow>
      findLoopFollow_dom g kind head latch ns dt st
        = Some (findLoopFollow g kind head latch ns st)) \<and>
   (kind = PreTestedLoop \<longrightarrow> Successors g head = h0 # h1 # rest \<longrightarrow> h0 \<noteq> h1 \<longrightarrow>
    dominatorWalk dt (Successors g head) latch = Some (Inr t) \<longrightarrow>
      ((findLoopFollow_dom g kind head latch ns dt st
          = Some (findLoopFollow g kind head latch ns st))
       \<longleftrightarrow> ((contains ns h0 \<longrightarrow> h1 \<noteq> latch \<and> t \<noteq> h1) \<and>
            (\<not> contains ns h0 \<and> contains ns h1 \<longrightarrow> h0 \<noteq> latch))))"
proof (intro conjI impI)
  assume "kind \<noteq> PreTestedLoop"
  then show "findLoopFollow_dom g kind head latch ns dt st
               = Some (findLoopFollow g kind head latch ns st)"
    by (cases kind) (simp_all add: findLoopFollow_dom_def findLoopFollow_def Let_def)
next
  assume k: "kind = PreTestedLoop"
    and s: "Successors g head = h0 # h1 # rest"
    and d: "h0 \<noteq> h1"
    and w: "dominatorWalk dt (Successors g head) latch = Some (Inr t)"
  from w s have w': "dominatorWalk dt (h0 # h1 # rest) latch = Some (Inr t)"
    by simp
  show "(findLoopFollow_dom g kind head latch ns dt st
           = Some (findLoopFollow g kind head latch ns st))
        \<longleftrightarrow> ((contains ns h0 \<longrightarrow> h1 \<noteq> latch \<and> t \<noteq> h1) \<and>
             (\<not> contains ns h0 \<and> contains ns h1 \<longrightarrow> h0 \<noteq> latch))"
    unfolding findLoopFollow_dom_def findLoopFollow_def Let_def k s
    using d by (auto simp: w')
qed

theorem findLoopFollow_agree_witness:
  "PostTestedLoop \<noteq> PreTestedLoop \<and>
   findLoopFollow_dom while_graph PostTestedLoop (node_id 2) (node_id 3)
       [node_id 2, node_id 3] while_tree fresh_store
     = Some (findLoopFollow while_graph PostTestedLoop (node_id 2) (node_id 3)
          [node_id 2, node_id 3] fresh_store) \<and>
   Successors while_graph (node_id 2) = [node_id 3, node_id 4] \<and>
   node_id (3::int) \<noteq> node_id 4 \<and>
   dominatorWalk while_tree (Successors while_graph (node_id 2)) (node_id 3)
     = Some (Inr (node_id 3)) \<and>
   findLoopFollow_dom while_graph PreTestedLoop (node_id 2) (node_id 3)
       [node_id 2, node_id 3] while_tree fresh_store
     = Some (findLoopFollow while_graph PreTestedLoop (node_id 2) (node_id 3)
          [node_id 2, node_id 3] fresh_store)"
proof -
  have s: "Successors while_graph (node_id 2) = [node_id 3, node_id 4]"
    by code_simp
  have w: "dominatorWalk while_tree (Successors while_graph (node_id 2))
             (node_id 3) = Some (Inr (node_id 3))"
    by code_simp
  have d: "node_id (3::int) \<noteq> node_id 4"
    by (simp add: node_id_def)
  have c: "(contains [node_id 2, node_id 3] (node_id (3::int)) \<longrightarrow>
              node_id 4 \<noteq> node_id (3::int) \<and> node_id (3::int) \<noteq> node_id 4) \<and>
           (\<not> contains [node_id 2, node_id 3] (node_id (3::int)) \<and>
              contains [node_id 2, node_id 3] (node_id (4::int)) \<longrightarrow>
              node_id (3::int) \<noteq> node_id 3)"
    by (simp add: contains_def node_id_def)
  have post: "findLoopFollow_dom while_graph PostTestedLoop (node_id 2) (node_id 3)
       [node_id 2, node_id 3] while_tree fresh_store
     = Some (findLoopFollow while_graph PostTestedLoop (node_id 2) (node_id 3)
          [node_id 2, node_id 3] fresh_store)"
    using findLoopFollow_agree [of PostTestedLoop while_graph "node_id 2" "node_id 3"
        "[node_id 2, node_id 3]" while_tree fresh_store]
    by simp
  have pre: "findLoopFollow_dom while_graph PreTestedLoop (node_id 2) (node_id 3)
       [node_id 2, node_id 3] while_tree fresh_store
     = Some (findLoopFollow while_graph PreTestedLoop (node_id 2) (node_id 3)
          [node_id 2, node_id 3] fresh_store)"
    using findLoopFollow_agree [of PreTestedLoop while_graph "node_id 2" "node_id 3"
        "[node_id 2, node_id 3]" while_tree fresh_store
        "node_id 3" "node_id 4" "[]" "node_id 3"] s w c d
    by simp
  from post pre s w d show ?thesis by simp
qed

subsection \<open>C1: the if-else-if chain\<close>

text \<open>
  C1, as stated, fails: on \<open>scenarioF\<close> (root 1, edges 1\<rightarrow>2, 1\<rightarrow>3, 3\<rightarrow>4, 3\<rightarrow>5, 4\<rightarrow>6,
  5\<rightarrow>6, 2\<rightarrow>6) \<open>Structure\<close> returns one primitive, not two, and none has entry 3. The
  immediate dominator of node 6 is node 1, so node 3 dominates no join point directly.
\<close>

theorem Structure_scenarioF_counterexample:
  "(case Structure scenarioF fresh_store of
      Some (Inr (prims, errs)) \<Rightarrow> length prims = 1 \<and> 3 \<notin> set (map Entry prims)
    | _ \<Rightarrow> False)"
  by code_simp

text \<open>
  C1 (amended): for the graph with root 1 and edges 1\<rightarrow>2, 1\<rightarrow>3, 3\<rightarrow>4, 3\<rightarrow>5, 4\<rightarrow>6, 5\<rightarrow>6,
  2\<rightarrow>6, \<open>Structure\<close> returns no error and exactly one primitive: a
  \<open>TwoWayConditional\<close> with entry 1, exit (follow) 6 and body \<open>[3]\<close>, whose extras are
  \<open>cond\<close> 1 and \<open>follow\<close> 6. Node 3 gets no primitive of its own: it stays unresolved
  and is listed in the body of node 1.
\<close>

theorem Structure_scenarioF:
  "(case Structure scenarioF fresh_store of
      Some (Inr (prims, errs)) \<Rightarrow>
        errs = [] \<and>
        map Primitive.Kind prims = [TwoWayConditional] \<and>
        map Entry prims = [1] \<and>
        map Exit prims = [6] \<and>
        map Body prims = [[3]] \<and>
        map (\<lambda>p. (Extra p ''cond'', Extra p ''follow'', Extra p ''latch'')) prims
          = [(Some 1, Some 6, None)]
    | _ \<Rightarrow> False)"
  by code_simp

subsection \<open>C2: determinism\<close>




subsection \<open>What the loop structurer emits\<close>

lemma markLoop_Order:
  "markLoop dt h latch xs (ns, s) = (ns', s') \<Longrightarrow> Order (s' n) = Order (s n)"
proof (induction xs arbitrary: ns s)
  case Nil
  then show ?case by simp
next
  case (Cons x xs)
  show ?case
  proof (cases "Order (s h) < Order (s x) \<and> Order (s x) \<le> Order (s latch) \<and> Dominates dt h x")
    case True
    then have nb: "\<not> Order (s x) > Order (s latch)" by simp
    from Cons.prems True nb
    have "markLoop dt h latch xs (ns @ [x], s(x := (s x)\<lparr>IsLoopNode := True\<rparr>)) = (ns', s')"
      by simp
    from Cons.IH [OF this] show ?thesis by simp
  next
    case False
    show ?thesis
    proof (cases "Order (s x) > Order (s latch)")
      case True
      with Cons.prems False show ?thesis by auto
    next
      case nb: False
      from Cons.prems False nb have "markLoop dt h latch xs (ns, s) = (ns', s')"
        by auto
      from Cons.IH [OF this] show ?thesis .
    qed
  qed
qed

lemma markLoop_nodes:
  "\<forall>n. Order (s n) = Order (st n) \<Longrightarrow>
   fst (markLoop dt h latch xs (ns, s)) =
     ns @ filter (\<lambda>n. Order (st h) < Order (st n) \<and> Order (st n) \<le> Order (st latch)
                       \<and> Dominates dt h n)
            (takeWhile (\<lambda>n. \<not> Order (st n) > Order (st latch)) xs)"
proof (induction xs arbitrary: ns s)
  case Nil
  then show ?case by simp
next
  case (Cons x xs)
  have o: "\<And>n. Order (s n) = Order (st n)" using Cons.prems by simp
  show ?case
  proof (cases "Order (st x) > Order (st latch)")
    case True
    then show ?thesis by (simp add: o)
  next
    case nb: False
    show ?thesis
    proof (cases "Order (st h) < Order (st x) \<and> Dominates dt h x")
      case True
      have "\<forall>n. Order ((s(x := (s x)\<lparr>IsLoopNode := True\<rparr>)) n) = Order (st n)"
        by (simp add: o)
      from Cons.IH [where s = "s(x := (s x)\<lparr>IsLoopNode := True\<rparr>)" and ns = "ns @ [x]"] this
      have "fst (markLoop dt h latch xs (ns @ [x], s(x := (s x)\<lparr>IsLoopNode := True\<rparr>))) =
              (ns @ [x]) @ filter (\<lambda>n. Order (st h) < Order (st n) \<and> Order (st n) \<le> Order (st latch)
                       \<and> Dominates dt h n)
                (takeWhile (\<lambda>n. \<not> Order (st n) > Order (st latch)) xs)"
        by blast
      moreover have "markLoop dt h latch (x # xs) (ns, s)
          = markLoop dt h latch xs (ns @ [x], s(x := (s x)\<lparr>IsLoopNode := True\<rparr>))"
        using True nb by (simp add: o)
      ultimately show ?thesis using True nb by simp
    next
      case False
      from Cons.IH [OF Cons.prems, of ns] False nb show ?thesis
        by (auto simp: o)
    qed
  qed
qed

lemma sorted_takeWhile_filter:
  "sorted (map f xs) \<Longrightarrow>
   filter (\<lambda>n. Q n \<and> f n \<le> (c::int)) (takeWhile (\<lambda>n. \<not> f n > c) xs)
     = filter (\<lambda>n. Q n \<and> f n \<le> c) xs"
proof (induction xs)
  case Nil
  then show ?case by simp
next
  case (Cons x xs)
  show ?case
  proof (cases "f x > c")
    case True
    with Cons.prems have "\<forall>y \<in> set xs. f y > c" by fastforce
    then have "filter (\<lambda>n. Q n \<and> f n \<le> c) xs = []"
      by (auto simp: filter_empty_conv)
    with True show ?thesis by simp
  next
    case False
    with Cons show ?thesis by simp
  qed
qed

lemma markNodesInLoop_nodes:
  assumes "\<forall>n. Order (s n) = Order (st n)"
  shows "fst (markNodesInLoop g h latch dt s) =
     h # filter (\<lambda>n. Order (st h) < Order (st n) \<and> Order (st n) \<le> Order (st latch)
                      \<and> Dominates dt h n)
           (sort_key (\<lambda>n. Order (st n)) (nodes g))"
proof -
  let ?s = "s(h := (s h)\<lparr>IsLoopNode := True, IsLoopHead := True\<rparr>)"
  have o: "\<forall>n. Order (?s n) = Order (st n)" using assms by simp
  have a: "ascReversePostOrder s (nodes g) = sort_key (\<lambda>n. Order (st n)) (nodes g)"
    using assms by (simp add: ascReversePostOrder_def)
  have srt: "sorted (map (\<lambda>n. Order (st n)) (sort_key (\<lambda>n. Order (st n)) (nodes g)))"
    by (rule sorted_sort_key)
  have "filter (\<lambda>n. (Order (st h) < Order (st n) \<and> Dominates dt h n) \<and> Order (st n) \<le> Order (st latch))
          (takeWhile (\<lambda>n. \<not> Order (st n) > Order (st latch))
             (sort_key (\<lambda>n. Order (st n)) (nodes g)))
      = filter (\<lambda>n. (Order (st h) < Order (st n) \<and> Dominates dt h n) \<and> Order (st n) \<le> Order (st latch))
          (sort_key (\<lambda>n. Order (st n)) (nodes g))"
    using srt by (rule sorted_takeWhile_filter)
  moreover have "(\<lambda>n. (Order (st h) < Order (st n) \<and> Dominates dt h n) \<and> Order (st n) \<le> Order (st latch))
      = (\<lambda>n. Order (st h) < Order (st n) \<and> Order (st n) \<le> Order (st latch) \<and> Dominates dt h n)"
    by auto
  moreover have "fst (markLoop dt h latch (sort_key (\<lambda>n. Order (st n)) (nodes g)) ([h], ?s))
      = [h] @ filter (\<lambda>n. Order (st h) < Order (st n) \<and> Order (st n) \<le> Order (st latch)
                       \<and> Dominates dt h n)
            (takeWhile (\<lambda>n. \<not> Order (st n) > Order (st latch))
               (sort_key (\<lambda>n. Order (st n)) (nodes g)))"
    using o by (rule markLoop_nodes)
  ultimately show ?thesis
    unfolding markNodesInLoop_def a by simp
qed

lemma markNodesInLoop_Order:
  "markNodesInLoop g h latch dt s = (ns, s') \<Longrightarrow> Order (s' n) = Order (s n)"
  unfolding markNodesInLoop_def by (drule markLoop_Order [where n = n]) simp

lemma structureInterval_run:
  assumes "structureInterval g dt intervals interval (prims, errs, st) = Some (Inr (prims', errs', st'))"
  shows "(\<forall>n. Order (st' n) = Order (st n)) \<and>
         (prims' = prims \<or>
          (\<exists>h latch ns kind follow.
              loop_run g dt intervals interval st h latch ns kind follow \<and>
              prims' = prims @ [loopPrimitive kind h latch follow ns]))"
proof (cases "findLatch g interval intervals st")
  case None
  with assms show ?thesis by (simp add: structureInterval_def)
next
  case (Some r)
  show ?thesis
  proof (cases r)
    case (Inl p)
    with Some assms show ?thesis by (simp add: structureInterval_def)
  next
    case (Inr hl)
    show ?thesis
    proof (cases hl)
      case None
      with Some Inr assms show ?thesis by (simp add: structureInterval_def)
    next
      case hl: (Some pair)
      obtain h latch where pair: "pair = (h, latch)" by (cases pair)
      show ?thesis
      proof (cases "IsLoopNode (st latch)")
        case True
        with Some Inr hl pair assms show ?thesis by (simp add: structureInterval_def)
      next
        case False
        let ?st0 = "st(latch := (st latch)\<lparr>IsLoopLatch := True\<rparr>)"
        obtain ns st1 where m: "markNodesInLoop g h latch dt ?st0 = (ns, st1)"
          by (cases "markNodesInLoop g h latch dt ?st0")
        have o1: "\<forall>n. Order (st1 n) = Order (st n)"
          using markNodesInLoop_Order [OF m] by simp
        from Some Inr hl pair False m assms
        have e: "(case findLoopKind g h latch ns of
                    Inl e \<Rightarrow> Some (Inr (prims, errs @ [e], st1))
                  | Inr kind \<Rightarrow>
                      (case findLoopFollow g kind h latch ns st1 of
                         Inl p \<Rightarrow> Some (Inl p)
                       | Inr (Inl e) \<Rightarrow> Some (Inr (prims, errs @ [e], st1))
                       | Inr (Inr follow) \<Rightarrow>
                           Some (Inr (prims @ [loopPrimitive kind h latch follow ns], errs, st1))))
                 = Some (Inr (prims', errs', st'))"
          by (simp add: structureInterval_def)
        then have "st' = st1 \<and> (prims' = prims \<or>
                     (\<exists>kind follow. findLoopKind g h latch ns = Inr kind \<and>
                        findLoopFollow g kind h latch ns st1 = Inr (Inr follow) \<and>
                        prims' = prims @ [loopPrimitive kind h latch follow ns]))"
          by (auto split: sum.splits)
        moreover have "loop_run g dt intervals interval st h latch ns kind follow"
          if "findLoopKind g h latch ns = Inr kind"
            "findLoopFollow g kind h latch ns st1 = Inr (Inr follow)" for kind follow
          using that Some Inr hl pair False m by (simp add: loop_run_def)
        ultimately show ?thesis using o1 by blast
      qed
    qed
  qed
qed

lemma emitted_first:
  "loop_run g dt intervals interval st h latch ns kind follow \<Longrightarrow>
   emitted g dt intervals (interval # rest) (prims, errs, st) (loopPrimitive kind h latch follow ns)"
  unfolding emitted_def
  apply (rule exI [of _ "[]"])
  apply (rule exI [of _ interval])
  apply (rule exI [of _ rest])
  apply (rule exI [of _ prims])
  apply (rule exI [of _ errs])
  apply (rule exI [of _ st])
  apply (rule exI [of _ h])
  apply (rule exI [of _ latch])
  apply (rule exI [of _ ns])
  apply (rule exI [of _ kind])
  apply (rule exI [of _ follow])
  apply simp
  done

lemma emitted_later:
  assumes "emitted g dt intervals rest acc1 p"
    and "structureInterval g dt intervals interval acc = Some (Inr acc1)"
  shows "emitted g dt intervals (interval # rest) acc p"
proof -
  from assms(1) obtain pre iv rest' prims1 errs1 st1 h latch ns kind follow where
    a: "rest = pre @ iv # rest'"
    and b: "structureIntervals g dt intervals pre acc1 = Some (Inr (prims1, errs1, st1))"
    and c: "loop_run g dt intervals iv st1 h latch ns kind follow"
    and d: "p = loopPrimitive kind h latch follow ns"
    unfolding emitted_def by blast
  have a': "interval # rest = (interval # pre) @ iv # rest'" using a by simp
  have b': "structureIntervals g dt intervals (interval # pre) acc = Some (Inr (prims1, errs1, st1))"
    using b assms(2) by simp
  show ?thesis
    unfolding emitted_def using a' b' c d by blast
qed

lemma structureIntervals_runs:
  "structureIntervals g dt intervals is (prims, errs, st) = Some (Inr (prims', errs', st')) \<Longrightarrow>
   (\<forall>n. Order (st' n) = Order (st n)) \<and>
   (\<exists>new. prims' = prims @ new \<and>
      (\<forall>p \<in> set new. emitted g dt intervals is (prims, errs, st) p))"
proof (induction "is" arbitrary: prims errs st)
  case Nil
  then show ?case by simp
next
  case (Cons interval rest)
  from Cons.prems obtain prims1 errs1 st1 where
    s1: "structureInterval g dt intervals interval (prims, errs, st)
           = Some (Inr (prims1, errs1, st1))"
    and s2: "structureIntervals g dt intervals rest (prims1, errs1, st1)
           = Some (Inr (prims', errs', st'))"
    by (auto split: option.splits sum.splits)
  from structureInterval_run [OF s1] have o1: "\<forall>n. Order (st1 n) = Order (st n)"
    and p1: "prims1 = prims \<or>
          (\<exists>h latch ns kind follow.
              loop_run g dt intervals interval st h latch ns kind follow \<and>
              prims1 = prims @ [loopPrimitive kind h latch follow ns])"
    by blast+
  from Cons.IH [OF s2] obtain new where o2: "\<forall>n. Order (st' n) = Order (st1 n)"
    and new: "prims' = prims1 @ new"
      "\<forall>p \<in> set new. emitted g dt intervals rest (prims1, errs1, st1) p"
    by blast
  have new': "\<forall>p \<in> set new. emitted g dt intervals (interval # rest) (prims, errs, st) p"
    using new(2) s1 by (auto intro: emitted_later)
  have o: "\<forall>n. Order (st' n) = Order (st n)" using o1 o2 by simp
  from p1 show ?case
  proof
    assume "prims1 = prims"
    with new(1) new' o show ?thesis by auto
  next
    assume "\<exists>h latch ns kind follow.
              loop_run g dt intervals interval st h latch ns kind follow \<and>
              prims1 = prims @ [loopPrimitive kind h latch follow ns]"
    then obtain h latch ns kind follow where
      r: "loop_run g dt intervals interval st h latch ns kind follow"
      and p: "prims1 = prims @ [loopPrimitive kind h latch follow ns]"
      by blast
    from emitted_first [OF r]
    have "emitted g dt intervals (interval # rest) (prims, errs, st)
            (loopPrimitive kind h latch follow ns)" .
    with new' have "\<forall>q \<in> set (loopPrimitive kind h latch follow ns # new).
                      emitted g dt intervals (interval # rest) (prims, errs, st) q"
      by simp
    moreover have "prims' = prims @ (loopPrimitive kind h latch follow ns # new)"
      using p new(1) by simp
    ultimately show ?thesis using o by blast
  qed
qed

lemma StructureLoops_runs:
  assumes "StructureLoops g dt st = Some (Inr (prims, errs, st'))"
    and "p \<in> set prims"
  shows "\<exists>pre interval rest prims1 errs1 st1 h latch ns kind follow.
        loop_intervals g = pre @ interval # rest \<and>
        structureIntervals g dt (derived_intervals g) pre ([], [], st)
          = Some (Inr (prims1, errs1, st1)) \<and>
        (\<forall>n. Order (st1 n) = Order (st n)) \<and>
        loop_run g dt (derived_intervals g) interval st1 h latch ns kind follow \<and>
        p = loopPrimitive kind h latch follow ns"
proof -
  from assms(1) obtain graphs intervals where ds: "DerivedSequence g = Some (Inr (graphs, intervals))"
    and si: "structureIntervals g dt intervals (concat (take (length graphs) intervals))
               ([], [], st) = Some (Inr (prims, errs, st'))"
    by (auto simp: StructureLoops_def split: option.splits sum.splits)
  from ds have e: "derived_intervals g = intervals"
    "loop_intervals g = concat (take (length graphs) intervals)"
    by (simp_all add: derived_intervals_def loop_intervals_def)
  from structureIntervals_runs [OF si] assms(2)
  have "emitted g dt (derived_intervals g) (loop_intervals g) ([], [], st) p"
    unfolding e by auto
  then obtain pre interval rest prims1 errs1 st1 h latch ns kind follow where
    a: "loop_intervals g = pre @ interval # rest"
    and b: "structureIntervals g dt (derived_intervals g) pre ([], [], st)
          = Some (Inr (prims1, errs1, st1))"
    and c: "loop_run g dt (derived_intervals g) interval st1 h latch ns kind follow"
    and d: "p = loopPrimitive kind h latch follow ns"
    unfolding emitted_def by blast
  from structureIntervals_runs [OF b] have "\<forall>n. Order (st1 n) = Order (st n)" by blast
  with a b c d show ?thesis by blast
qed

lemma structureIntervals_append:
  "structureIntervals g dt intervals (pre @ rest) acc =
     (case structureIntervals g dt intervals pre acc of
        None \<Rightarrow> None
      | Some (Inl p) \<Rightarrow> Some (Inl p)
      | Some (Inr acc1) \<Rightarrow> structureIntervals g dt intervals rest acc1)"
proof (induction pre arbitrary: acc)
  case Nil
  then show ?case by simp
next
  case (Cons interval pre)
  show ?case
  proof (cases "structureInterval g dt intervals interval acc")
    case None
    then show ?thesis by simp
  next
    case (Some r)
    show ?thesis
    proof (cases r)
      case (Inl p)
      with Some show ?thesis by simp
    next
      case (Inr acc1)
      with Some Cons.IH [of acc1] show ?thesis by simp
    qed
  qed
qed

lemma findLatch_Order:
  assumes "\<forall>n. Order (s n) = Order (t n)"
  shows "findLatch g interval intervals s = findLatch g interval intervals t"
proof -
  have o: "\<And>n. Order (s n) = Order (t n)" using assms by simp
  have p: "pickLatch s = pickLatch t"
    unfolding pickLatch_def by (simp add: o)
  have d: "descReversePostOrder s = descReversePostOrder t"
    unfolding descReversePostOrder_def by (simp add: o)
  have q: "\<And>h. (\<lambda>cand. \<not> Order (s cand) < Order (s h)) = (\<lambda>cand. \<not> Order (t cand) < Order (t h))"
    by (simp add: o)
  show ?thesis
    unfolding findLatch_def p d q by (rule refl)
qed

lemma endlessStep_fst: "fst (endlessStep g st ns n acc) \<le> fst acc"
  by (simp add: endlessStep_def Let_def)

lemma endlessStep_inv:
  "fst acc < MaxInt64 \<longrightarrow> snd acc \<noteq> None \<Longrightarrow> fst acc \<le> MaxInt64 \<Longrightarrow>
   (fst (endlessStep g st ns n acc) < MaxInt64 \<longrightarrow> snd (endlessStep g st ns n acc) \<noteq> None) \<and>
   fst (endlessStep g st ns n acc) \<le> MaxInt64"
  by (simp add: endlessStep_def Let_def)

lemma endlessFold_fst: "fst (fold (endlessStep g st ns) xs acc) \<le> fst acc"
proof (induction xs arbitrary: acc)
  case Nil
  then show ?case by simp
next
  case (Cons x xs)
  have "fst (fold (endlessStep g st ns) xs (endlessStep g st ns x acc))
          \<le> fst (endlessStep g st ns x acc)"
    by (rule Cons.IH)
  also have "\<dots> \<le> fst acc" by (rule endlessStep_fst)
  finally show ?case by simp
qed

lemma endlessFold_inv:
  "fst acc < MaxInt64 \<longrightarrow> snd acc \<noteq> None \<Longrightarrow> fst acc \<le> MaxInt64 \<Longrightarrow>
   fst (fold (endlessStep g st ns) xs acc) < MaxInt64 \<longrightarrow>
   snd (fold (endlessStep g st ns) xs acc) \<noteq> None"
proof (induction xs arbitrary: acc)
  case Nil
  then show ?case by simp
next
  case (Cons x xs)
  from endlessStep_inv [OF Cons.prems, of g st ns x]
  have "fst (endlessStep g st ns x acc) < MaxInt64 \<longrightarrow> snd (endlessStep g st ns x acc) \<noteq> None"
    and "fst (endlessStep g st ns x acc) \<le> MaxInt64"
    by blast+
  from Cons.IH [OF this] show ?case by simp
qed

lemma endlessStep_same:
  assumes "fst (endlessStep g st ns n acc) = fst acc"
    and "length (Successors g n) = 2"
    and "s \<in> set (Successors g n)"
  shows "s \<in> set ns \<or> fst acc \<le> Order (st s)"
proof -
  obtain a b where ab: "Successors g n = [a, b]"
    using assms(2) by (cases "Successors g n"; cases "tl (Successors g n)") auto
  from assms(3) ab have s: "s = a \<or> s = b" by simp
  from assms(1) have "(a \<in> set ns \<or> fst acc \<le> Order (st a)) \<and>
                      (b \<in> set ns \<or> fst acc \<le> Order (st b))"
    by (auto simp: endlessStep_def Let_def ab contains_def split: if_splits)
  with s show ?thesis by blast
qed

lemma endlessFold_same:
  "fst (fold (endlessStep g st ns) xs acc) = fst acc \<Longrightarrow> n \<in> set xs \<Longrightarrow>
   length (Successors g n) = 2 \<Longrightarrow> s \<in> set (Successors g n) \<Longrightarrow>
   s \<in> set ns \<or> fst acc \<le> Order (st s)"
proof (induction xs arbitrary: acc)
  case Nil
  then show ?case by simp
next
  case (Cons x xs)
  have a: "fst (fold (endlessStep g st ns) xs (endlessStep g st ns x acc))
             \<le> fst (endlessStep g st ns x acc)"
    by (rule endlessFold_fst)
  have b: "fst (endlessStep g st ns x acc) \<le> fst acc" by (rule endlessStep_fst)
  from Cons.prems(1) have c: "fst (fold (endlessStep g st ns) xs (endlessStep g st ns x acc)) = fst acc"
    by simp
  from a b c have e: "fst (endlessStep g st ns x acc) = fst acc" by simp
  show ?case
  proof (cases "n = x")
    case True
    with e Cons.prems(3,4) show ?thesis using endlessStep_same by blast
  next
    case False
    with Cons.prems(2) have "n \<in> set xs" by simp
    moreover have "fst (fold (endlessStep g st ns) xs (endlessStep g st ns x acc))
                     = fst (endlessStep g st ns x acc)"
      using c e by simp
    ultimately have "s \<in> set ns \<or> fst (endlessStep g st ns x acc) \<le> Order (st s)"
      using Cons.IH Cons.prems(3,4) by blast
    with e show ?thesis by simp
  qed
qed

lemma endlessFollow_None:
  assumes "endlessFollow g st ns = None"
    and "n \<in> set ns" and "length (Successors g n) = 2" and "s \<in> set (Successors g n)"
  shows "s \<in> set ns \<or> MaxInt64 \<le> Order (st s)"
proof -
  let ?r = "fold (endlessStep g st ns) ns (MaxInt64, None)"
  have le: "fst ?r \<le> MaxInt64" using endlessFold_fst [of g st ns ns "(MaxInt64, None)"] by simp
  have inv: "fst ?r < MaxInt64 \<longrightarrow> snd ?r \<noteq> None"
    by (rule endlessFold_inv) simp_all
  from assms(1) have "fst ?r = MaxInt64 \<or> snd ?r = None"
    by (auto simp: endlessFollow_def Let_def split: if_splits)
  with le inv have "fst ?r = fst (MaxInt64, None :: 'a ID option)" by auto
  from endlessFold_same [OF this assms(2,3,4)] show ?thesis by simp
qed

lemma findLoopFollow_None:
  "findLoopFollow g kind h latch ns st = Inr (Inr None) \<Longrightarrow>
   kind = EndlessLoop \<and> endlessFollow g st ns = None"
  by (cases kind) (auto simp: findLoopFollow_def Let_def split: list.splits if_splits)

subsection \<open>C3: failure of the latch resolution\<close>

text \<open>
  C3, as stated, fails: on \<open>nested3\<close> the latch of the interval of the third level is an
  interval node whose interval holds interval nodes only, so the search for the
  candidate latch 4 finds nothing; \<open>findOrigLatch\<close> panics and \<open>Structure\<close> returns
  neither primitives nor an error.
\<close>

theorem Structure_latch_panic_counterexample:
  "Structure nested3 fresh_store = Some (Inl LatchNotFound)"
proof -
  have "(case Structure nested3 fresh_store of
           Some (Inl p) \<Rightarrow> p = LatchNotFound | _ \<Rightarrow> False)"
    by code_simp
  then show ?thesis by (auto split: option.splits sum.splits)
qed

text \<open>
  C3 (amended): take a run of \<open>StructureLoops\<close> in which the derived sequence is
  computed and the rounds on the intervals before some interval return. If on that
  interval \<open>findLatch\<close> picks a latch whose value is not that of a node of the graph,
  and the search \<open>findNodeInInterval\<close> for its original node among the candidates finds
  no node, then \<open>findOrigLatch\<close> panics, \<open>findLatch\<close> ends with that panic in every
  store that holds these orders, the round on the interval ends with it, and so does
  \<open>StructureLoops\<close>, whatever intervals remain; \<open>Structure\<close> ends with it too when
  the store is the one \<open>InitOrder\<close> leaves and the tree is the tree of the graph. No
  error is recorded, and neither primitives nor a joined error are returned.
\<close>

theorem latch_resolution_panics:
  "DerivedSequence g = Some (Inr (graphs, intervals)) \<and>
   concat (take (length graphs) intervals) = pre @ interval # rest \<and>
   (\<exists>acc. structureIntervals g dt intervals pre ([], [], st) = Some (Inr acc)) \<and>
   pickLatch st (Interval_Predecessors interval (i_head interval)) = Some latch \<and>
   GetNode g (Value latch) = None \<and>
   findOrigHead (i_head interval) (concat intervals) = Some (Inr h) \<and>
   cands = takeWhile (\<lambda>cand. \<not> Order (st cand) < Order (st h))
             (descReversePostOrder st (Predecessors g h)) \<and>
   getInterval latch (concat intervals) = Inr (Some i) \<and>
   findNodeInInterval cands i (concat intervals) = Some (Inr None)
   \<longrightarrow>
   findOrigLatch latch cands (concat intervals) = Some (Inl LatchNotFound) \<and>
   (\<forall>st1. (\<forall>n. Order (st1 n) = Order (st n)) \<longrightarrow>
      findLatch g interval intervals st1 = Some (Inl LatchNotFound)) \<and>
   (\<forall>acc. structureIntervals g dt intervals pre ([], [], st) = Some (Inr acc) \<longrightarrow>
      structureInterval g dt intervals interval acc = Some (Inl LatchNotFound)) \<and>
   StructureLoops g dt st = Some (Inl LatchNotFound) \<and>
   (\<forall>st0. InitOrder g st0 = Inr st \<and> dt = dominator_New g \<longrightarrow>
      Structure g st0 = Some (Inl LatchNotFound))"
proof (intro impI)
  assume a: "DerivedSequence g = Some (Inr (graphs, intervals)) \<and>
   concat (take (length graphs) intervals) = pre @ interval # rest \<and>
   (\<exists>acc. structureIntervals g dt intervals pre ([], [], st) = Some (Inr acc)) \<and>
   pickLatch st (Interval_Predecessors interval (i_head interval)) = Some latch \<and>
   GetNode g (Value latch) = None \<and>
   findOrigHead (i_head interval) (concat intervals) = Some (Inr h) \<and>
   cands = takeWhile (\<lambda>cand. \<not> Order (st cand) < Order (st h))
             (descReversePostOrder st (Predecessors g h)) \<and>
   getInterval latch (concat intervals) = Inr (Some i) \<and>
   findNodeInInterval cands i (concat intervals) = Some (Inr None)"
  then have ds: "DerivedSequence g = Some (Inr (graphs, intervals))"
    and sp: "concat (take (length graphs) intervals) = pre @ interval # rest"
    and pl: "pickLatch st (Interval_Predecessors interval (i_head interval)) = Some latch"
    and gn: "GetNode g (Value latch) = None"
    and oh: "findOrigHead (i_head interval) (concat intervals) = Some (Inr h)"
    and cs: "cands = takeWhile (\<lambda>cand. \<not> Order (st cand) < Order (st h))
             (descReversePostOrder st (Predecessors g h))"
    and gi: "getInterval latch (concat intervals) = Inr (Some i)"
    and fn: "findNodeInInterval cands i (concat intervals) = Some (Inr None)"
    by blast+
  from a obtain acc0 where
    pre: "structureIntervals g dt intervals pre ([], [], st) = Some (Inr acc0)"
    by blast
  have c1: "findOrigLatch latch cands (concat intervals) = Some (Inl LatchNotFound)"
    by (simp add: findOrigLatch_def gi fn)
  have fl: "findLatch g interval intervals st = Some (Inl LatchNotFound)"
    using c1 by (simp add: findLatch_def pl gn oh cs [symmetric])
  have c2: "findLatch g interval intervals st1 = Some (Inl LatchNotFound)"
    if "\<forall>n. Order (st1 n) = Order (st n)" for st1
    using findLatch_Order [OF that, of g interval intervals] fl by simp
  have c3: "structureInterval g dt intervals interval acc = Some (Inl LatchNotFound)"
    if r: "structureIntervals g dt intervals pre ([], [], st) = Some (Inr acc)" for acc
  proof -
    obtain prims1 errs1 st1 where acc: "acc = (prims1, errs1, st1)" by (cases acc)
    from structureIntervals_runs [OF r [unfolded acc]]
    have "\<forall>n. Order (st1 n) = Order (st n)" by blast
    from c2 [OF this] show ?thesis by (simp add: structureInterval_def acc)
  qed
  have c4: "StructureLoops g dt st = Some (Inl LatchNotFound)"
    unfolding StructureLoops_def ds
    by (simp add: sp structureIntervals_append pre c3 [OF pre])
  have c5: "Structure g st0 = Some (Inl LatchNotFound)"
    if "InitOrder g st0 = Inr st \<and> dt = dominator_New g" for st0
    using that c4 by (simp add: Structure_def)
  from c1 c2 c3 c4 c5 show "findOrigLatch latch cands (concat intervals) = Some (Inl LatchNotFound) \<and>
   (\<forall>st1. (\<forall>n. Order (st1 n) = Order (st n)) \<longrightarrow>
      findLatch g interval intervals st1 = Some (Inl LatchNotFound)) \<and>
   (\<forall>acc. structureIntervals g dt intervals pre ([], [], st) = Some (Inr acc) \<longrightarrow>
      structureInterval g dt intervals interval acc = Some (Inl LatchNotFound)) \<and>
   StructureLoops g dt st = Some (Inl LatchNotFound) \<and>
   (\<forall>st0. InitOrder g st0 = Inr st \<and> dt = dominator_New g \<longrightarrow>
      Structure g st0 = Some (Inl LatchNotFound))"
    by blast
qed

theorem latch_resolution_panics_witness:
  "DerivedSequence nested3 = Some (Inr (derived_graphs nested3, derived_intervals nested3)) \<and>
   concat (take (length (derived_graphs nested3)) (derived_intervals nested3)) =
     take 5 (loop_intervals nested3) @ (loop_intervals nested3 ! 5) # drop 6 (loop_intervals nested3) \<and>
   (\<exists>acc. structureIntervals nested3 (dominator_New nested3) (derived_intervals nested3) (take 5 (loop_intervals nested3))
            ([], [], initial_order nested3) = Some (Inr acc)) \<and>
   pickLatch (initial_order nested3) (Interval_Predecessors (loop_intervals nested3 ! 5) (i_head (loop_intervals nested3 ! 5)))
     = Some (interval_id 4) \<and>
   GetNode nested3 (Value (interval_id 4 :: int ID)) = None \<and>
   findOrigHead (i_head (loop_intervals nested3 ! 5)) (concat (derived_intervals nested3)) = Some (Inr (node_id 1)) \<and>
   [node_id 4] = takeWhile (\<lambda>cand. \<not> Order (initial_order nested3 cand) < Order (initial_order nested3 (node_id 1)))
             (descReversePostOrder (initial_order nested3) (Predecessors nested3 (node_id 1))) \<and>
   getInterval (interval_id 4) (concat (derived_intervals nested3)) = Inr (Some (concat (derived_intervals nested3) ! 4)) \<and>
   findNodeInInterval [node_id 4] (concat (derived_intervals nested3) ! 4) (concat (derived_intervals nested3)) = Some (Inr None) \<and>
   findOrigLatch (interval_id 4) [node_id 4] (concat (derived_intervals nested3)) = Some (Inl LatchNotFound) \<and>
   findLatch nested3 (loop_intervals nested3 ! 5) (derived_intervals nested3) (initial_order nested3) = Some (Inl LatchNotFound) \<and>
   StructureLoops nested3 (dominator_New nested3) (initial_order nested3) = Some (Inl LatchNotFound) \<and>
   InitOrder nested3 fresh_store = Inr (initial_order nested3) \<and>
   Structure nested3 fresh_store = Some (Inl LatchNotFound)"
proof -
  have d0: "(case DerivedSequence nested3 of Some (Inr x) \<Rightarrow> True | _ \<Rightarrow> False)"
    by code_simp
  then have ds: "DerivedSequence nested3 = Some (Inr (derived_graphs nested3, derived_intervals nested3))"
    by (auto simp: derived_graphs_def derived_intervals_def split: option.splits sum.splits)
  have li: "loop_intervals nested3 = concat (take (length (derived_graphs nested3)) (derived_intervals nested3))"
    using ds by (simp add: loop_intervals_def)
  have len: "5 < length (loop_intervals nested3)"
    by code_simp
  have s6: "Suc 5 = 6" by simp
  have sp0: "loop_intervals nested3 = take 5 (loop_intervals nested3) @ (loop_intervals nested3 ! 5) # drop 6 (loop_intervals nested3)"
    using id_take_nth_drop [OF len] by (simp only: s6)
  have sp: "concat (take (length (derived_graphs nested3)) (derived_intervals nested3)) =
     take 5 (loop_intervals nested3) @ (loop_intervals nested3 ! 5) # drop 6 (loop_intervals nested3)"
    using sp0 unfolding li [symmetric] .
  have p0: "(case structureIntervals nested3 (dominator_New nested3) (derived_intervals nested3) (take 5 (loop_intervals nested3))
            ([], [], initial_order nested3) of Some (Inr acc) \<Rightarrow> True | _ \<Rightarrow> False)"
    by code_simp
  then have pre: "(\<exists>acc. structureIntervals nested3 (dominator_New nested3) (derived_intervals nested3) (take 5 (loop_intervals nested3))
            ([], [], initial_order nested3) = Some (Inr acc))"
    by (auto split: option.splits sum.splits)
  have pl: "pickLatch (initial_order nested3) (Interval_Predecessors (loop_intervals nested3 ! 5) (i_head (loop_intervals nested3 ! 5)))
     = Some (interval_id 4)"
    by code_simp
  have gn: "GetNode nested3 (Value (interval_id 4 :: int ID)) = None"
    by code_simp
  have oh: "findOrigHead (i_head (loop_intervals nested3 ! 5)) (concat (derived_intervals nested3)) = Some (Inr (node_id 1))"
    by code_simp
  have cs: "[node_id 4] = takeWhile (\<lambda>cand. \<not> Order (initial_order nested3 cand) < Order (initial_order nested3 (node_id 1)))
             (descReversePostOrder (initial_order nested3) (Predecessors nested3 (node_id 1)))"
    by code_simp
  have gi: "getInterval (interval_id 4) (concat (derived_intervals nested3)) = Inr (Some (concat (derived_intervals nested3) ! 4))"
    by code_simp
  have fn: "findNodeInInterval [node_id 4] (concat (derived_intervals nested3) ! 4) (concat (derived_intervals nested3)) = Some (Inr None)"
    by code_simp
  have r: "root nested3 = Some (node_id 1)"
    by code_simp
  have io: "InitOrder nested3 fresh_store = Inr (initial_order nested3)"
    by (simp add: initial_order_def InitOrder_def DFS_def r)
  have prem: "DerivedSequence nested3 = Some (Inr (derived_graphs nested3, derived_intervals nested3)) \<and>
   concat (take (length (derived_graphs nested3)) (derived_intervals nested3)) =
     take 5 (loop_intervals nested3) @ (loop_intervals nested3 ! 5) # drop 6 (loop_intervals nested3) \<and>
   (\<exists>acc. structureIntervals nested3 (dominator_New nested3) (derived_intervals nested3) (take 5 (loop_intervals nested3))
            ([], [], initial_order nested3) = Some (Inr acc)) \<and>
   pickLatch (initial_order nested3) (Interval_Predecessors (loop_intervals nested3 ! 5) (i_head (loop_intervals nested3 ! 5)))
     = Some (interval_id 4) \<and>
   GetNode nested3 (Value (interval_id 4 :: int ID)) = None \<and>
   findOrigHead (i_head (loop_intervals nested3 ! 5)) (concat (derived_intervals nested3)) = Some (Inr (node_id 1)) \<and>
   [node_id 4] = takeWhile (\<lambda>cand. \<not> Order (initial_order nested3 cand) < Order (initial_order nested3 (node_id 1)))
             (descReversePostOrder (initial_order nested3) (Predecessors nested3 (node_id 1))) \<and>
   getInterval (interval_id 4) (concat (derived_intervals nested3)) = Inr (Some (concat (derived_intervals nested3) ! 4)) \<and>
   findNodeInInterval [node_id 4] (concat (derived_intervals nested3) ! 4) (concat (derived_intervals nested3)) = Some (Inr None)"
    using ds sp pre pl gn oh cs gi fn by (intro conjI)
  note t = latch_resolution_panics [of nested3 "derived_graphs nested3" "derived_intervals nested3"
      "take 5 (loop_intervals nested3)" "loop_intervals nested3 ! 5" "drop 6 (loop_intervals nested3)" "dominator_New nested3" "initial_order nested3"
      "interval_id 4" "node_id 1" "[node_id 4]" "concat (derived_intervals nested3) ! 4", THEN mp, OF prem]
  from t have c1: "findOrigLatch (interval_id 4) [node_id 4] (concat (derived_intervals nested3)) = Some (Inl LatchNotFound)"
    by (rule conjunct1)
  from t have "\<forall>st1. (\<forall>n. Order (st1 n) = Order (initial_order nested3 n)) \<longrightarrow>
      findLatch nested3 (loop_intervals nested3 ! 5) (derived_intervals nested3) st1 = Some (Inl LatchNotFound)"
    by blast
  then have c2: "findLatch nested3 (loop_intervals nested3 ! 5) (derived_intervals nested3) (initial_order nested3) = Some (Inl LatchNotFound)"
    by simp
  from t have c4: "StructureLoops nested3 (dominator_New nested3) (initial_order nested3) = Some (Inl LatchNotFound)"
    by blast
  from t have "\<forall>st0. InitOrder nested3 st0 = Inr (initial_order nested3) \<and> dominator_New nested3 = dominator_New nested3 \<longrightarrow>
      Structure nested3 st0 = Some (Inl LatchNotFound)"
    by blast
  with io have c5: "Structure nested3 fresh_store = Some (Inl LatchNotFound)"
    by simp
  from prem c1 c2 c4 io c5 show ?thesis by (intro conjI) blast+
qed

subsection \<open>C10: a loop without follow\<close>

text \<open>
  C10, as stated, fails in its conclusion: \<open>endless_plain\<close> has an endless loop without
  follow, \<open>endless_exit0\<close> an endless loop whose follow is the node with value 0. Both
  primitives have \<open>Exit\<close> 0, but the \<open>Extra\<close> map of the second holds the key
  \<open>follow\<close> and the map of the first does not: the public fields tell them apart.
\<close>

theorem loop_follow_key_counterexample:
  "(case StructureLoops endless_plain endless_plain_tree (initial_order endless_plain) of
      Some (Inr (prims, errs, st)) \<Rightarrow>
        map (\<lambda>p. (Primitive.Kind p, Exit p, Extra p ''follow'')) prims = [(EndlessLoop, 0, None)]
    | _ \<Rightarrow> False) \<and>
   (case StructureLoops endless_exit0 endless_exit0_tree (initial_order endless_exit0) of
      Some (Inr (prims, errs, st)) \<Rightarrow>
        map (\<lambda>p. (Primitive.Kind p, Exit p, Extra p ''follow'')) prims = [(EndlessLoop, 0, Some 0)]
    | _ \<Rightarrow> False)"
  by code_simp

text \<open>
  C10 (amended): every primitive that \<open>StructureLoops\<close> emits is the primitive of a
  round of its loop: the round is on one of the intervals it visits, starts in the
  store that the rounds on the intervals before it leave, and builds the primitive from
  the head and latch of \<open>findLatch\<close>, the loop nodes of \<open>markNodesInLoop\<close>, the kind of
  \<open>findLoopKind\<close> and the follow that \<open>findLoopFollow\<close> returns. \<open>Exit\<close> holds the
  value of that follow, and the zero value of \<open>N\<close> when there is none; \<open>Extra\<close> maps
  \<open>follow\<close> to the value of that follow, and has no key \<open>follow\<close> exactly when there
  is none. When there is no follow the loop is endless and every successor of a loop
  node with two successors is a loop node (or has no order below the largest integer).
  An absent follow is therefore indistinguishable from a follow of value zero through
  \<open>Exit\<close> alone, and distinguishable through the key \<open>follow\<close> of \<open>Extra\<close>.
\<close>

theorem loop_exit_and_follow_key:
  "(case StructureLoops g dt st of
      Some (Inr (prims, errs, st')) \<Rightarrow>
        \<forall>p \<in> set prims. \<exists>pre interval rest prims1 errs1 st1 h latch ns kind follow.
          loop_intervals g = pre @ interval # rest \<and>
          structureIntervals g dt (derived_intervals g) pre ([], [], st)
            = Some (Inr (prims1, errs1, st1)) \<and>
          loop_run g dt (derived_intervals g) interval st1 h latch ns kind follow \<and>
          p = loopPrimitive kind h latch follow ns \<and>
          Exit p = (case follow of None \<Rightarrow> 0 | Some f \<Rightarrow> Value f) \<and>
          Extra p ''follow'' = map_option Value follow \<and>
          (follow = None \<longrightarrow>
             kind = EndlessLoop \<and>
             (\<forall>n \<in> set ns. length (Successors g n) = 2 \<longrightarrow>
                (\<forall>s \<in> set (Successors g n). s \<in> set ns \<or> MaxInt64 \<le> Order (st s))))
    | _ \<Rightarrow> True)"
proof -
  have main: "\<exists>pre interval rest prims1 errs1 st1 h latch ns kind follow.
          loop_intervals g = pre @ interval # rest \<and>
          structureIntervals g dt (derived_intervals g) pre ([], [], st)
            = Some (Inr (prims1, errs1, st1)) \<and>
          loop_run g dt (derived_intervals g) interval st1 h latch ns kind follow \<and>
          p = loopPrimitive kind h latch follow ns \<and>
          Exit p = (case follow of None \<Rightarrow> 0 | Some f \<Rightarrow> Value f) \<and>
          Extra p ''follow'' = map_option Value follow \<and>
          (follow = None \<longrightarrow>
             kind = EndlessLoop \<and>
             (\<forall>n \<in> set ns. length (Successors g n) = 2 \<longrightarrow>
                (\<forall>s \<in> set (Successors g n). s \<in> set ns \<or> MaxInt64 \<le> Order (st s))))"
    if run: "StructureLoops g dt st = Some (Inr (prims, errs, st'))" and p: "p \<in> set prims"
    for prims errs st' p
  proof -
    from StructureLoops_runs [OF run p]
    obtain pre interval rest prims1 errs1 st1 h latch ns kind follow where
      a: "loop_intervals g = pre @ interval # rest"
      and b: "structureIntervals g dt (derived_intervals g) pre ([], [], st)
            = Some (Inr (prims1, errs1, st1))"
      and o: "\<forall>n. Order (st1 n) = Order (st n)"
      and c: "loop_run g dt (derived_intervals g) interval st1 h latch ns kind follow"
      and d: "p = loopPrimitive kind h latch follow ns"
      by blast
    let ?s0 = "st1(latch := (st1 latch)\<lparr>IsLoopLatch := True\<rparr>)"
    obtain ns' st2 where m: "markNodesInLoop g h latch dt ?s0 = (ns', st2)"
      by (cases "markNodesInLoop g h latch dt ?s0")
    have o2: "\<And>n. Order (st2 n) = Order (st n)"
      using markNodesInLoop_Order [OF m] o by simp
    from c m have f: "findLoopFollow g kind h latch ns st2 = Inr (Inr follow)"
      by (auto simp: loop_run_def)
    have e1: "Exit p = (case follow of None \<Rightarrow> 0 | Some f \<Rightarrow> Value f)"
      by (simp add: d loopPrimitive_def)
    have e2: "Extra p ''follow'' = map_option Value follow"
      by (cases follow) (simp_all add: d loopPrimitive_def)
    have e3: "kind = EndlessLoop \<and>
             (\<forall>n \<in> set ns. length (Successors g n) = 2 \<longrightarrow>
                (\<forall>s \<in> set (Successors g n). s \<in> set ns \<or> MaxInt64 \<le> Order (st s)))"
      if n: "follow = None"
    proof -
      from findLoopFollow_None [OF f [unfolded n]]
      have k: "kind = EndlessLoop" and ef: "endlessFollow g st2 ns = None" by blast+
      have "s \<in> set ns \<or> MaxInt64 \<le> Order (st s)"
        if "n \<in> set ns" "length (Successors g n) = 2" "s \<in> set (Successors g n)" for n s
        using endlessFollow_None [OF ef that] o2 by simp
      with k show ?thesis by blast
    qed
    from a b c d e1 e2 e3 show ?thesis by blast
  qed
  show ?thesis
  proof (cases "StructureLoops g dt st")
    case None
    then show ?thesis by simp
  next
    case (Some r)
    show ?thesis
    proof (cases r)
      case (Inl a)
      with Some show ?thesis by simp
    next
      case (Inr t)
      obtain prims errs st' where t: "t = (prims, errs, st')" by (cases t)
      from main [OF Some [unfolded Inr t]] show ?thesis
        unfolding Some Inr t by simp
    qed
  qed
qed

theorem loop_exit_and_follow_key_witness:
  "(case StructureLoops diamond_loop (dominator_New diamond_loop) (initial_order diamond_loop) of
      Some (Inr (prims, errs, st')) \<Rightarrow>
        map (\<lambda>p. (Primitive.Kind p, Body p, Exit p, Extra p ''follow'')) prims
          = [(EndlessLoop, [2, 3, 5, 4, 6], 0, None)] \<and>
        length (Successors diamond_loop (node_id 3)) = 2 \<and>
        (\<forall>p \<in> set prims. \<exists>pre interval rest prims1 errs1 st1 h latch ns kind follow.
          loop_intervals diamond_loop = pre @ interval # rest \<and>
          structureIntervals diamond_loop (dominator_New diamond_loop)
            (derived_intervals diamond_loop) pre ([], [], initial_order diamond_loop)
            = Some (Inr (prims1, errs1, st1)) \<and>
          loop_run diamond_loop (dominator_New diamond_loop) (derived_intervals diamond_loop)
            interval st1 h latch ns kind follow \<and>
          p = loopPrimitive kind h latch follow ns \<and>
          Exit p = (case follow of None \<Rightarrow> 0 | Some f \<Rightarrow> Value f) \<and>
          Extra p ''follow'' = map_option Value follow \<and>
          (follow = None \<longrightarrow>
             kind = EndlessLoop \<and>
             (\<forall>n \<in> set ns. length (Successors diamond_loop n) = 2 \<longrightarrow>
                (\<forall>s \<in> set (Successors diamond_loop n).
                   s \<in> set ns \<or> MaxInt64 \<le> Order (initial_order diamond_loop s)))))
    | _ \<Rightarrow> False)"
proof -
  have l: "(case StructureLoops diamond_loop (dominator_New diamond_loop)
                  (initial_order diamond_loop) of
      Some (Inr (prims, errs, st')) \<Rightarrow>
        map (\<lambda>p. (Primitive.Kind p, Body p, Exit p, Extra p ''follow'')) prims
          = [(EndlessLoop, [2, 3, 5, 4, 6], 0, None)]
    | _ \<Rightarrow> False)"
    by code_simp
  have s: "length (Successors diamond_loop (node_id 3)) = 2"
    by code_simp
  from loop_exit_and_follow_key [of diamond_loop "dominator_New diamond_loop"
      "initial_order diamond_loop"] l s
  show ?thesis
    by (cases "StructureLoops diamond_loop (dominator_New diamond_loop)
                 (initial_order diamond_loop)")
      (auto split: sum.splits)
qed

subsection \<open>C7: loop containment\<close>

text \<open>
  C7, as stated, fails: the latch need not be in the body. In \<open>orphan_latch\<close> the only
  predecessor of the head 1 is node 2, which no path from the root reaches; it keeps the
  order 0, below the order of the head, \<open>markNodesInLoop\<close> admits no node but the head,
  and the emitted endless loop has the latch 2 and the body 1. In \<open>closed_graph\<close> the
  loop with head 2 and latch 4 is pre-tested and both successors of the head are loop
  nodes; \<open>findLoopFollow\<close> returns the second one, the latch 4, as follow, and
  \<open>StructureLoops\<close> removes the follow from the body: the emitted primitive has the
  latch 4 and the body 2, 3.
\<close>

theorem loop_latch_counterexample:
  "(case StructureLoops orphan_latch orphan_latch_tree (initial_order orphan_latch) of
      Some (Inr (prims, errs, st)) \<Rightarrow>
        map (\<lambda>p. (Primitive.Kind p, Entry p, Body p, Extra p ''latch'', Extra p ''follow'')) prims
          = [(EndlessLoop, 1, [1], Some 2, None)]
    | _ \<Rightarrow> False) \<and>
   (case StructureLoops closed_graph closed_tree (initial_order closed_graph) of
      Some (Inr (prims, errs, st)) \<Rightarrow>
        map (\<lambda>p. (Primitive.Kind p, Entry p, Body p, Extra p ''latch'', Extra p ''follow'')) prims
          = [(PreTestedLoop, 2, [2, 3], Some 4, Some 4)]
    | _ \<Rightarrow> False)"
  by code_simp

text \<open>
  C7 (amended): on a graph whose node table has one entry per node, every primitive that
  \<open>StructureLoops\<close> emits is the primitive of a round of its loop, built from the head
  \<open>h\<close> and the latch of \<open>findLatch\<close>, the loop nodes \<open>ns\<close> of \<open>markNodesInLoop\<close>
  and the follow of \<open>findLoopFollow\<close>; its entry is the value of \<open>h\<close> and its body
  lists the values of \<open>body\<close>, the loop nodes without the follow. Every body node is
  the head, or a node of the graph that the head dominates. The follow, when present, is
  not a body node. When the follow is not the latch, the latch is a body node exactly
  when it is the head, or a node of the graph whose order is above the head's and which
  the head dominates. Where the loop nodes and a node \<open>x\<close> (the follow, the latch) have
  distinct values, the value of \<open>x\<close> is in the body list exactly when \<open>x\<close> is a body
  node.
\<close>

theorem loop_containment:
  "distinct (nodes g) \<longrightarrow>
   (case StructureLoops g dt st of
      Some (Inr (prims, errs, st')) \<Rightarrow>
        \<forall>p \<in> set prims. \<exists>pre interval rest prims1 errs1 st1 h latch ns kind follow body.
          loop_intervals g = pre @ interval # rest \<and>
          structureIntervals g dt (derived_intervals g) pre ([], [], st)
            = Some (Inr (prims1, errs1, st1)) \<and>
          loop_run g dt (derived_intervals g) interval st1 h latch ns kind follow \<and>
          p = loopPrimitive kind h latch follow ns \<and>
          body = (case follow of None \<Rightarrow> ns | Some f \<Rightarrow> remove1 f ns) \<and>
          Entry p = Value h \<and> Body p = map Value body \<and>
          Extra p ''latch'' = Some (Value latch) \<and>
          Extra p ''follow'' = map_option Value follow \<and>
          (\<forall>n \<in> set body. n = h \<or> (n \<in> set (nodes g) \<and> Dominates dt h n)) \<and>
          (\<forall>f. follow = Some f \<longrightarrow> f \<notin> set body) \<and>
          (follow \<noteq> Some latch \<longrightarrow>
             (latch \<in> set body \<longleftrightarrow>
                latch = h \<or> (latch \<in> set (nodes g) \<and> Order (st h) < Order (st latch)
                               \<and> Dominates dt h latch))) \<and>
          (\<forall>x. inj_on Value (insert x (set ns)) \<longrightarrow>
             (Value x \<in> set (Body p) \<longleftrightarrow> x \<in> set body))
    | _ \<Rightarrow> True)"
proof (intro impI)
  assume d: "distinct (nodes g)"
  have main: "\<exists>pre interval rest prims1 errs1 st1 h latch ns kind follow body.
          loop_intervals g = pre @ interval # rest \<and>
          structureIntervals g dt (derived_intervals g) pre ([], [], st)
            = Some (Inr (prims1, errs1, st1)) \<and>
          loop_run g dt (derived_intervals g) interval st1 h latch ns kind follow \<and>
          p = loopPrimitive kind h latch follow ns \<and>
          body = (case follow of None \<Rightarrow> ns | Some f \<Rightarrow> remove1 f ns) \<and>
          Entry p = Value h \<and> Body p = map Value body \<and>
          Extra p ''latch'' = Some (Value latch) \<and>
          Extra p ''follow'' = map_option Value follow \<and>
          (\<forall>n \<in> set body. n = h \<or> (n \<in> set (nodes g) \<and> Dominates dt h n)) \<and>
          (\<forall>f. follow = Some f \<longrightarrow> f \<notin> set body) \<and>
          (follow \<noteq> Some latch \<longrightarrow>
             (latch \<in> set body \<longleftrightarrow>
                latch = h \<or> (latch \<in> set (nodes g) \<and> Order (st h) < Order (st latch)
                               \<and> Dominates dt h latch))) \<and>
          (\<forall>x. inj_on Value (insert x (set ns)) \<longrightarrow>
             (Value x \<in> set (Body p) \<longleftrightarrow> x \<in> set body))"
    if run: "StructureLoops g dt st = Some (Inr (prims, errs, st'))" and p: "p \<in> set prims"
    for prims errs st' p
  proof -
    from StructureLoops_runs [OF run p]
    obtain pre interval rest prims1 errs1 st1 h latch ns kind follow where
      a: "loop_intervals g = pre @ interval # rest"
      and b: "structureIntervals g dt (derived_intervals g) pre ([], [], st)
            = Some (Inr (prims1, errs1, st1))"
      and o: "\<forall>n. Order (st1 n) = Order (st n)"
      and c: "loop_run g dt (derived_intervals g) interval st1 h latch ns kind follow"
      and pe: "p = loopPrimitive kind h latch follow ns"
      by blast
    let ?s0 = "st1(latch := (st1 latch)\<lparr>IsLoopLatch := True\<rparr>)"
    have o0: "\<forall>n. Order (?s0 n) = Order (st n)" using o by simp
    from c have m: "ns = fst (markNodesInLoop g h latch dt ?s0)"
      by (simp add: loop_run_def)
    define P where "P = (\<lambda>n. Order (st h) < Order (st n) \<and> Order (st n) \<le> Order (st latch)
                              \<and> Dominates dt h n)"
    have "fst (markNodesInLoop g h latch dt ?s0) =
            h # filter (\<lambda>n. Order (st h) < Order (st n) \<and> Order (st n) \<le> Order (st latch)
                              \<and> Dominates dt h n)
                  (sort_key (\<lambda>n. Order (st n)) (nodes g))"
      by (rule markNodesInLoop_nodes) (rule o0)
    then have ns: "ns = h # filter P (sort_key (\<lambda>n. Order (st n)) (nodes g))"
      unfolding m P_def .
    have "\<not> P h" by (simp add: P_def)
    then have dist: "distinct ns"
      using d by (simp add: ns)
    have sns: "set ns = insert h {n \<in> set (nodes g). P n}"
      by (auto simp: ns)
    define body where "body = (case follow of None \<Rightarrow> ns | Some f \<Rightarrow> remove1 f ns)"
    have sb: "set body = set ns - (case follow of None \<Rightarrow> {} | Some f \<Rightarrow> {f})"
      using dist by (cases follow) (simp_all add: body_def)
    have f0: "body = (case follow of None \<Rightarrow> ns | Some f \<Rightarrow> remove1 f ns)"
      by (simp add: body_def)
    have f1: "Entry p = Value h" "Body p = map Value body"
      "Extra p ''latch'' = Some (Value latch)"
      "Extra p ''follow'' = map_option Value follow"
      by (cases follow; simp add: pe loopPrimitive_def body_def)+
    have f2: "\<forall>n \<in> set body. n = h \<or> (n \<in> set (nodes g) \<and> Dominates dt h n)"
      using sb sns by (auto simp: P_def)
    have f3: "\<forall>f. follow = Some f \<longrightarrow> f \<notin> set body"
      using sb by auto
    have f4: "follow \<noteq> Some latch \<longrightarrow>
             (latch \<in> set body \<longleftrightarrow>
                latch = h \<or> (latch \<in> set (nodes g) \<and> Order (st h) < Order (st latch)
                               \<and> Dominates dt h latch))"
      using sb sns by (cases follow) (auto simp: P_def)
    have sub: "set body \<subseteq> set ns" using sb by auto
    have f5: "Value x \<in> set (Body p) \<longleftrightarrow> x \<in> set body"
      if i: "inj_on Value (insert x (set ns))" for x
    proof
      assume "Value x \<in> set (Body p)"
      then obtain n where n: "n \<in> set body" "Value n = Value x"
        unfolding f1(2) by auto
      from n(1) sub have nin: "n \<in> insert x (set ns)" by auto
      have xin: "x \<in> insert x (set ns)" by simp
      from inj_onD [OF i n(2) nin xin] have "n = x" .
      with n(1) show "x \<in> set body" by simp
    next
      assume "x \<in> set body"
      then show "Value x \<in> set (Body p)" unfolding f1(2) by simp
    qed
    from a b c pe f0 f1 f2 f3 f4 f5 show ?thesis by blast
  qed
  show "case StructureLoops g dt st of
      Some (Inr (prims, errs, st')) \<Rightarrow>
        \<forall>p \<in> set prims. \<exists>pre interval rest prims1 errs1 st1 h latch ns kind follow body.
          loop_intervals g = pre @ interval # rest \<and>
          structureIntervals g dt (derived_intervals g) pre ([], [], st)
            = Some (Inr (prims1, errs1, st1)) \<and>
          loop_run g dt (derived_intervals g) interval st1 h latch ns kind follow \<and>
          p = loopPrimitive kind h latch follow ns \<and>
          body = (case follow of None \<Rightarrow> ns | Some f \<Rightarrow> remove1 f ns) \<and>
          Entry p = Value h \<and> Body p = map Value body \<and>
          Extra p ''latch'' = Some (Value latch) \<and>
          Extra p ''follow'' = map_option Value follow \<and>
          (\<forall>n \<in> set body. n = h \<or> (n \<in> set (nodes g) \<and> Dominates dt h n)) \<and>
          (\<forall>f. follow = Some f \<longrightarrow> f \<notin> set body) \<and>
          (follow \<noteq> Some latch \<longrightarrow>
             (latch \<in> set body \<longleftrightarrow>
                latch = h \<or> (latch \<in> set (nodes g) \<and> Order (st h) < Order (st latch)
                               \<and> Dominates dt h latch))) \<and>
          (\<forall>x. inj_on Value (insert x (set ns)) \<longrightarrow>
             (Value x \<in> set (Body p) \<longleftrightarrow> x \<in> set body))
    | _ \<Rightarrow> True"
  proof (cases "StructureLoops g dt st")
    case None
    then show ?thesis by simp
  next
    case (Some r)
    show ?thesis
    proof (cases r)
      case (Inl a)
      with Some show ?thesis by simp
    next
      case (Inr t)
      obtain prims errs st' where t: "t = (prims, errs, st')" by (cases t)
      from main [OF Some [unfolded Inr t]] show ?thesis
        unfolding Some Inr t by simp
    qed
  qed
qed

theorem loop_containment_witness:
  "distinct (nodes while_graph) \<and>
   (case StructureLoops while_graph while_tree (initial_order while_graph) of
      Some (Inr (prims, errs, st')) \<Rightarrow>
        map (\<lambda>p. (Entry p, Body p, Extra p ''latch'', Extra p ''follow'')) prims
          = [(2, [2, 3], Some 3, Some 4)] \<and>
        (\<forall>p \<in> set prims. \<exists>pre interval rest prims1 errs1 st1 h latch ns kind follow body.
          loop_intervals while_graph = pre @ interval # rest \<and>
          structureIntervals while_graph while_tree (derived_intervals while_graph) pre ([], [], initial_order while_graph)
            = Some (Inr (prims1, errs1, st1)) \<and>
          loop_run while_graph while_tree (derived_intervals while_graph) interval st1 h latch ns kind follow \<and>
          p = loopPrimitive kind h latch follow ns \<and>
          body = (case follow of None \<Rightarrow> ns | Some f \<Rightarrow> remove1 f ns) \<and>
          Entry p = Value h \<and> Body p = map Value body \<and>
          Extra p ''latch'' = Some (Value latch) \<and>
          Extra p ''follow'' = map_option Value follow \<and>
          (\<forall>n \<in> set body. n = h \<or> (n \<in> set (nodes while_graph) \<and> Dominates while_tree h n)) \<and>
          (\<forall>f. follow = Some f \<longrightarrow> f \<notin> set body) \<and>
          (follow \<noteq> Some latch \<longrightarrow>
             (latch \<in> set body \<longleftrightarrow>
                latch = h \<or> (latch \<in> set (nodes while_graph) \<and> Order (initial_order while_graph h) < Order (initial_order while_graph latch)
                               \<and> Dominates while_tree h latch))) \<and>
          (\<forall>x. inj_on Value (insert x (set ns)) \<longrightarrow>
             (Value x \<in> set (Body p) \<longleftrightarrow> x \<in> set body)))
    | _ \<Rightarrow> False)"
proof -
  have d: "distinct (nodes while_graph)"
    by code_simp
  have l: "(case StructureLoops while_graph while_tree (initial_order while_graph) of
      Some (Inr (prims, errs, st')) \<Rightarrow>
        map (\<lambda>p. (Entry p, Body p, Extra p ''latch'', Extra p ''follow'')) prims
          = [(2, [2, 3], Some 3, Some 4)]
    | _ \<Rightarrow> False)"
    by code_simp
  from loop_containment [of while_graph while_tree "initial_order while_graph"] d
  have t: "(case StructureLoops while_graph while_tree (initial_order while_graph) of
      Some (Inr (prims, errs, st')) \<Rightarrow>
        \<forall>p \<in> set prims. \<exists>pre interval rest prims1 errs1 st1 h latch ns kind follow body.
          loop_intervals while_graph = pre @ interval # rest \<and>
          structureIntervals while_graph while_tree (derived_intervals while_graph) pre ([], [], initial_order while_graph)
            = Some (Inr (prims1, errs1, st1)) \<and>
          loop_run while_graph while_tree (derived_intervals while_graph) interval st1 h latch ns kind follow \<and>
          p = loopPrimitive kind h latch follow ns \<and>
          body = (case follow of None \<Rightarrow> ns | Some f \<Rightarrow> remove1 f ns) \<and>
          Entry p = Value h \<and> Body p = map Value body \<and>
          Extra p ''latch'' = Some (Value latch) \<and>
          Extra p ''follow'' = map_option Value follow \<and>
          (\<forall>n \<in> set body. n = h \<or> (n \<in> set (nodes while_graph) \<and> Dominates while_tree h n)) \<and>
          (\<forall>f. follow = Some f \<longrightarrow> f \<notin> set body) \<and>
          (follow \<noteq> Some latch \<longrightarrow>
             (latch \<in> set body \<longleftrightarrow>
                latch = h \<or> (latch \<in> set (nodes while_graph) \<and> Order (initial_order while_graph h) < Order (initial_order while_graph latch)
                               \<and> Dominates while_tree h latch))) \<and>
          (\<forall>x. inj_on Value (insert x (set ns)) \<longrightarrow>
             (Value x \<in> set (Body p) \<longleftrightarrow> x \<in> set body))
    | _ \<Rightarrow> True)"
    by blast
  from t l d show ?thesis
    by (cases "StructureLoops while_graph while_tree (initial_order while_graph)")
      (simp_all split: sum.splits prod.splits)
qed

subsection \<open>C4: reverse postorder numbers\<close>

lemma dfs_invD:
  assumes "dfs_inv g r stack visited post"
  shows "distinct post" and "distinct (map fst stack)"
    and "set visited = set post \<union> fst ` set stack"
    and "set post \<inter> fst ` set stack = {}"
    and "\<forall>n \<in> set post. set (Successors g n) \<subseteq> set visited"
    and "\<forall>fr \<in> set stack. set (Successors g (fst fr)) \<subseteq> set visited \<union> set (snd fr) \<and>
                          set (snd fr) \<subseteq> set (Successors g (fst fr))"
    and "set visited \<subseteq> reachable g r"
    and "if stack = [] then post \<noteq> [] \<and> last post = r else fst (last stack) = r"
  using assms unfolding dfs_inv_def by blast+

lemma dfs_invI:
  assumes "distinct post" and "distinct (map fst stack)"
    and "set visited = set post \<union> fst ` set stack"
    and "set post \<inter> fst ` set stack = {}"
    and "\<forall>n \<in> set post. set (Successors g n) \<subseteq> set visited"
    and "\<forall>fr \<in> set stack. set (Successors g (fst fr)) \<subseteq> set visited \<union> set (snd fr) \<and>
                          set (snd fr) \<subseteq> set (Successors g (fst fr))"
    and "set visited \<subseteq> reachable g r"
    and "if stack = [] then post \<noteq> [] \<and> last post = r else fst (last stack) = r"
  shows "dfs_inv g r stack visited post"
  using assms unfolding dfs_inv_def by blast

lemma dfs_inv_pop:
  assumes inv: "dfs_inv g r ((n, []) # stack) visited post"
  shows "dfs_inv g r stack visited (post @ [n])"
proof (rule dfs_invI)
  note d = dfs_invD [OF inv]
  from d(2) have nf: "n \<notin> fst ` set stack" by simp
  from d(4) have np: "n \<notin> set post" by simp
  show "distinct (post @ [n])" using d(1) np by simp
  show "distinct (map fst stack)" using d(2) by simp
  show "set visited = set (post @ [n]) \<union> fst ` set stack" using d(3) by simp
  show "set (post @ [n]) \<inter> fst ` set stack = {}" using d(4) nf by simp
  from d(6) have "set (Successors g n) \<subseteq> set visited" by simp
  with d(5) show "\<forall>m \<in> set (post @ [n]). set (Successors g m) \<subseteq> set visited" by simp
  show "\<forall>fr \<in> set stack. set (Successors g (fst fr)) \<subseteq> set visited \<union> set (snd fr) \<and>
                          set (snd fr) \<subseteq> set (Successors g (fst fr))"
    using d(6) by simp
  show "set visited \<subseteq> reachable g r" by (rule d(7))
  show "if stack = [] then post @ [n] \<noteq> [] \<and> last (post @ [n]) = r
        else fst (last stack) = r"
    using d(8) by (auto split: if_splits)
qed

lemma dfs_inv_skip:
  assumes inv: "dfs_inv g r ((n, s # ss) # stack) visited post" and s: "s \<in> set visited"
  shows "dfs_inv g r ((n, ss) # stack) visited post"
proof (rule dfs_invI)
  note d = dfs_invD [OF inv]
  show "distinct post" by (rule d(1))
  show "distinct (map fst ((n, ss) # stack))" using d(2) by simp
  show "set visited = set post \<union> fst ` set ((n, ss) # stack)" using d(3) by simp
  show "set post \<inter> fst ` set ((n, ss) # stack) = {}" using d(4) by simp
  show "\<forall>m \<in> set post. set (Successors g m) \<subseteq> set visited" by (rule d(5))
  from d(6) have fr: "set (Successors g n) \<subseteq> set visited \<union> set (s # ss)"
    "set (s # ss) \<subseteq> set (Successors g n)"
    and rest: "\<forall>fr \<in> set stack. set (Successors g (fst fr)) \<subseteq> set visited \<union> set (snd fr) \<and>
                          set (snd fr) \<subseteq> set (Successors g (fst fr))"
    by simp_all
  from fr s have "set (Successors g n) \<subseteq> set visited \<union> set ss"
    "set ss \<subseteq> set (Successors g n)"
    by auto
  with rest show "\<forall>fr \<in> set ((n, ss) # stack).
       set (Successors g (fst fr)) \<subseteq> set visited \<union> set (snd fr) \<and>
       set (snd fr) \<subseteq> set (Successors g (fst fr))"
    by simp
  show "set visited \<subseteq> reachable g r" by (rule d(7))
  show "if (n, ss) # stack = [] then post \<noteq> [] \<and> last post = r
        else fst (last ((n, ss) # stack)) = r"
    using d(8) by (auto split: if_splits)
qed

lemma dfs_inv_push:
  assumes inv: "dfs_inv g r ((n, s # ss) # stack) visited post" and s: "s \<notin> set visited"
  shows "dfs_inv g r ((s, Successors g s) # (n, ss) # stack) (s # visited) post"
proof (rule dfs_invI)
  note d = dfs_invD [OF inv]
  from d(6) have fr: "set (Successors g n) \<subseteq> set visited \<union> set (s # ss)"
    "set (s # ss) \<subseteq> set (Successors g n)"
    and rest: "\<forall>fr \<in> set stack. set (Successors g (fst fr)) \<subseteq> set visited \<union> set (snd fr) \<and>
                          set (snd fr) \<subseteq> set (Successors g (fst fr))"
    by simp_all
  from d(3) have n: "n \<in> set visited" by simp
  with d(7) have "(r, n) \<in> (edges g)\<^sup>*" by (auto simp: reachable_def)
  moreover from fr(2) have "(n, s) \<in> edges g" by (simp add: edges_def)
  ultimately have rs: "s \<in> reachable g r"
    by (auto simp: reachable_def intro: rtrancl_into_rtrancl)
  from d(3) s have fs: "s \<notin> fst ` set ((n, ss) # stack)" "s \<notin> set post" by auto
  show "distinct post" by (rule d(1))
  show "distinct (map fst ((s, Successors g s) # (n, ss) # stack))"
    using d(2) fs(1) by simp
  show "set (s # visited) = set post \<union> fst ` set ((s, Successors g s) # (n, ss) # stack)"
    using d(3) by simp
  show "set post \<inter> fst ` set ((s, Successors g s) # (n, ss) # stack) = {}"
    using d(4) fs(2) by simp
  show "\<forall>m \<in> set post. set (Successors g m) \<subseteq> set (s # visited)"
    using d(5) by auto
  have "set (Successors g n) \<subseteq> set (s # visited) \<union> set ss" "set ss \<subseteq> set (Successors g n)"
    using fr by auto
  moreover have "\<forall>fr \<in> set stack. set (Successors g (fst fr)) \<subseteq> set (s # visited) \<union> set (snd fr) \<and>
                          set (snd fr) \<subseteq> set (Successors g (fst fr))"
    using rest by auto
  ultimately show "\<forall>fr \<in> set ((s, Successors g s) # (n, ss) # stack).
       set (Successors g (fst fr)) \<subseteq> set (s # visited) \<union> set (snd fr) \<and>
       set (snd fr) \<subseteq> set (Successors g (fst fr))"
    by auto
  show "set (s # visited) \<subseteq> reachable g r" using d(7) rs by simp
  show "if (s, Successors g s) # (n, ss) # stack = [] then post \<noteq> [] \<and> last post = r
        else fst (last ((s, Successors g s) # (n, ss) # stack)) = r"
    using d(8) by (auto split: if_splits)
qed

lemma visit_inv:
  "dfs_inv g r stack visited post \<Longrightarrow> visit g stack visited post = (v, p) \<Longrightarrow>
   dfs_inv g r [] v p"
proof (induction g stack visited post rule: visit.induct)
  case (1 g visited post)
  then show ?case by simp
next
  case (2 g n stack visited post)
  from "2.prems"(1) have "dfs_inv g r stack visited (post @ [n])" by (rule dfs_inv_pop)
  with 2 show ?case by simp
next
  case (3 g n s ss stack visited post)
  show ?case
  proof (cases "s \<in> set visited")
    case True
    with "3.prems"(1) have "dfs_inv g r ((n, ss) # stack) visited post" by (rule dfs_inv_skip)
    with 3 True show ?thesis by simp
  next
    case False
    with "3.prems"(1)
    have "dfs_inv g r ((s, Successors g s) # (n, ss) # stack) (s # visited) post"
      by (rule dfs_inv_push)
    with 3 False show ?thesis by simp
  qed
qed

lemma DFS_post:
  assumes "root g = Some r"
  shows "\<exists>post. DFS g = Inr post \<and> distinct post \<and> set post = reachable g r \<and>
                post \<noteq> [] \<and> last post = r"
proof -
  obtain v p where vp: "visit g [(r, Successors g r)] [r] [] = (v, p)"
    by (cases "visit g [(r, Successors g r)] [r] []")
  have "dfs_inv g r [(r, Successors g r)] [r] []"
    by (auto simp: dfs_inv_def reachable_def)
  from visit_inv [OF this vp] have inv: "dfs_inv g r [] v p" .
  note i = dfs_invD [OF inv]
  from i(1) have d: "distinct p" .
  from i(8) have ne: "p \<noteq> []" and l: "last p = r" by simp_all
  from i(3) have vp': "set v = set p" by simp
  from i(5) vp' have cl: "\<forall>n \<in> set p. set (Successors g n) \<subseteq> set p" by simp
  from i(7) vp' have sub: "set p \<subseteq> reachable g r" by simp
  from ne l have rp: "r \<in> set p" using last_in_set by metis
  have "n \<in> set p" if "(r, n) \<in> (edges g)\<^sup>*" for n
    using that
  proof (induction rule: rtrancl_induct)
    case base
    show ?case by (rule rp)
  next
    case (step y z)
    with cl show ?case by (auto simp: edges_def)
  qed
  then have "reachable g r \<subseteq> set p" by (auto simp: reachable_def)
  with sub have "set p = reachable g r" by auto
  with d ne l vp assms show ?thesis by (simp add: DFS_def)
qed

lemma assignOrder_other:
  "n \<notin> set ns \<Longrightarrow> assignOrder ns num st n = st n"
  by (induction ns arbitrary: num st) auto

lemma assignOrder_nth:
  "distinct ns \<Longrightarrow> k < length ns \<Longrightarrow>
   Order (assignOrder ns num st (ns ! k)) = num - int k"
proof (induction ns arbitrary: num st k)
  case Nil
  then show ?case by simp
next
  case (Cons a ns)
  show ?case
  proof (cases k)
    case 0
    with Cons.prems show ?thesis by (simp add: assignOrder_other)
  next
    case (Suc j)
    with Cons.prems have dj: "distinct ns" "j < length ns" by auto
    have "Order (assignOrder ns (num - 1) (st(a := (st a)\<lparr>Order := num\<rparr>)) (ns ! j))
                          = num - 1 - int j"
      using dj by (rule Cons.IH)
    moreover have "assignOrder (a # ns) num st ((a # ns) ! k)
        = assignOrder ns (num - 1) (st(a := (st a)\<lparr>Order := num\<rparr>)) (ns ! j)"
      using Suc by simp
    ultimately show ?thesis using Suc by simp
  qed
qed

lemma assignOrder_bij:
  assumes d: "distinct ns"
  shows "bij_betw (\<lambda>n. Order (assignOrder ns num st n)) (set ns)
           {num - int (length ns) + 1 .. num}"
proof -
  let ?f = "\<lambda>n. Order (assignOrder ns num st n)"
  have nth: "\<And>k. k < length ns \<Longrightarrow> ?f (ns ! k) = num - int k"
    using d by (rule assignOrder_nth)
  have inj: "inj_on ?f (set ns)"
  proof (rule inj_onI)
    fix a b assume a: "a \<in> set ns" and b: "b \<in> set ns" and e: "?f a = ?f b"
    from a obtain i where i: "i < length ns" "ns ! i = a" by (auto simp: in_set_conv_nth)
    from b obtain j where j: "j < length ns" "ns ! j = b" by (auto simp: in_set_conv_nth)
    from e nth [OF i(1)] nth [OF j(1)] i j have "i = j" by simp
    with i j show "a = b" by simp
  qed
  have img: "?f ` set ns = {num - int (length ns) + 1 .. num}"
  proof (intro equalityI subsetI)
    fix x assume "x \<in> ?f ` set ns"
    then obtain i where i: "i < length ns" "x = ?f (ns ! i)" by (auto simp: in_set_conv_nth)
    with nth [OF i(1)] show "x \<in> {num - int (length ns) + 1 .. num}" by auto
  next
    fix x assume x: "x \<in> {num - int (length ns) + 1 .. num}"
    then have k: "nat (num - x) < length ns" and e: "num - int (nat (num - x)) = x"
      by auto
    from nth [OF k] e have "?f (ns ! nat (num - x)) = x" by simp
    moreover from k have "ns ! nat (num - x) \<in> set ns" by simp
    ultimately show "x \<in> ?f ` set ns" by (metis imageI)
  qed
  from inj img show ?thesis by (simp add: bij_betw_def)
qed

text \<open>
  C4, as stated, fails: in \<open>isolated_graph\<close> the nodes 1 and 2 are reachable and node 3
  is not. \<open>InitOrder\<close> counts down from the size of the node table, 3, in postorder:
  node 2 gets 3 and the root gets 2. The orders of the reachable nodes are 2 and 3, not
  1 and 2, and the root has the smallest of them, not the largest.
\<close>

theorem InitOrder_counterexample:
  "DFS isolated_graph = Inr [node_id 2, node_id 1] \<and>
   (case InitOrder isolated_graph fresh_store of
      Inr st \<Rightarrow> map (\<lambda>n. Order (st n)) [node_id 1, node_id 2, node_id 3] = [2, 3, 0]
    | Inl p \<Rightarrow> False)"
  by code_simp

text \<open>
  C4 (amended): after \<open>InitOrder\<close> on a graph whose root is set, the \<open>Order\<close> values of
  the nodes reachable from the root form a bijection onto
  \<open>{|V| - |V_reachable| + 1 .. |V|}\<close>, where \<open>|V|\<close> is the size of the node table
  (this is \<open>{1..|V_reachable|}\<close> when every node of the table is reachable), the root is
  assigned the smallest of these numbers, and the nodes that are not reachable keep
  their state.
\<close>

theorem InitOrder_reverse_postorder:
  "root g = Some r \<longrightarrow>
   (case InitOrder g st of
      Inr st' \<Rightarrow>
        finite (reachable g r) \<and>
        bij_betw (\<lambda>n. Order (st' n)) (reachable g r)
          {int (Len g) - int (card (reachable g r)) + 1 .. int (Len g)} \<and>
        Order (st' r) = int (Len g) - int (card (reachable g r)) + 1 \<and>
        (\<forall>n. n \<notin> reachable g r \<longrightarrow> st' n = st n)
    | Inl p \<Rightarrow> False)"
proof
  assume r: "root g = Some r"
  from DFS_post [OF r] obtain post where post: "DFS g = Inr post" "distinct post"
    "set post = reachable g r" "post \<noteq> []" "last post = r"
    by blast
  let ?st = "assignOrder post (int (Len g)) st"
  have io: "InitOrder g st = Inr ?st" by (simp add: InitOrder_def post(1))
  have fin: "finite (reachable g r)" using post(3) [symmetric] by simp
  have card: "card (reachable g r) = length post"
    using post(2,3) distinct_card by metis
  have bij: "bij_betw (\<lambda>n. Order (?st n)) (reachable g r)
          {int (Len g) - int (card (reachable g r)) + 1 .. int (Len g)}"
    using assignOrder_bij [OF post(2), of "int (Len g)" st] by (simp add: post(3) card)
  have "r = post ! (length post - 1)" using post(4,5) by (simp add: last_conv_nth)
  moreover have "Order (?st (post ! (length post - 1))) = int (Len g) - int (length post - 1)"
    using post(2,4) by (intro assignOrder_nth) simp_all
  ultimately have ro: "Order (?st r) = int (Len g) - int (card (reachable g r)) + 1"
    using post(4) card by (cases post) simp_all
  have other: "\<forall>n. n \<notin> reachable g r \<longrightarrow> ?st n = st n"
    using post(3) by (simp add: assignOrder_other)
  from fin bij ro other show "case InitOrder g st of
      Inr st' \<Rightarrow>
        finite (reachable g r) \<and>
        bij_betw (\<lambda>n. Order (st' n)) (reachable g r)
          {int (Len g) - int (card (reachable g r)) + 1 .. int (Len g)} \<and>
        Order (st' r) = int (Len g) - int (card (reachable g r)) + 1 \<and>
        (\<forall>n. n \<notin> reachable g r \<longrightarrow> st' n = st n)
    | Inl p \<Rightarrow> False"
    unfolding io by simp
qed

theorem InitOrder_reverse_postorder_witness:
  "root isolated_graph = Some (node_id 1) \<and>
   (case InitOrder isolated_graph fresh_store of
      Inr st' \<Rightarrow>
        bij_betw (\<lambda>n. Order (st' n)) (reachable isolated_graph (node_id 1))
          {int (Len isolated_graph) - int (card (reachable isolated_graph (node_id 1))) + 1
             .. int (Len isolated_graph)} \<and>
        Order (st' (node_id 1))
          = int (Len isolated_graph) - int (card (reachable isolated_graph (node_id 1))) + 1 \<and>
        Order (st' (node_id 1)) = 2
    | Inl p \<Rightarrow> False)"
proof -
  have r: "root isolated_graph = Some (node_id 1)"
    by code_simp
  have o: "(case InitOrder isolated_graph fresh_store of
      Inr st' \<Rightarrow> Order (st' (node_id 1)) = 2 | Inl p \<Rightarrow> False)"
    by code_simp
  from InitOrder_reverse_postorder [of isolated_graph "node_id 1" fresh_store] r o
  show ?thesis by (auto split: sum.splits)
qed

subsection \<open>C8: termination of the derived sequence\<close>

lemma findNode_root:
  "root g = Some r \<Longrightarrow> \<exists>x. findNodeWithImmediatePredecessorsInInterval g i = Inr x"
  by (simp add: findNodeWithImmediatePredecessorsInInterval_def)

lemma grow_ok:
  "root g = Some r \<Longrightarrow>
   \<exists>i'. grow g i = Inr i' \<and> i_head i' = i_head i \<and> i_graph i' = i_graph i \<and>
        set (i_nodes i) \<subseteq> set (i_nodes i')"
proof (induction g i rule: grow.induct)
  case (1 g interval)
  from findNode_root [OF "1.prems"] obtain x where
    x: "findNodeWithImmediatePredecessorsInInterval g interval = Inr x" by blast
  show ?case
  proof (cases x)
    case None
    with x show ?thesis by (subst grow.simps) simp
  next
    case (Some node)
    from "1.IH" [OF x Some "1.prems"] obtain i' where
      i': "grow g (add interval node) = Inr i'" "i_head i' = i_head (add interval node)"
      "i_graph i' = i_graph (add interval node)"
      "set (i_nodes (add interval node)) \<subseteq> set (i_nodes i')"
      by blast
    have "grow g interval = grow g (add interval node)"
      using x Some by (subst grow.simps) simp
    with i' show ?thesis by (auto simp: add_def split: if_splits)
  qed
qed

lemma intervalsLoop_heads:
  "root g = Some r \<Longrightarrow>
   \<exists>res extra. intervalsLoop g headers acc = Inr res \<and>
     map i_head res = map i_head acc @ q_nodes headers @ extra \<and>
     set extra \<subseteq> set (nodes g) - set (q_all headers) \<and> distinct extra"
proof (induction g headers acc rule: intervalsLoop.induct)
  case (1 g headers intervals)
  show ?case
  proof (cases "q_nodes headers")
    case Nil
    then show ?thesis by (subst intervalsLoop.simps) simp
  next
    case (Cons h rest)
    from grow_ok [OF "1.prems", of "NewInterval h g"] obtain interval where
      gr: "grow g (NewInterval h g) = Inr interval" and hd: "i_head interval = h"
      by (auto simp: NewInterval_def)
    let ?q = "headers\<lparr>q_nodes := rest\<rparr>"
    from propose_appends [of g interval ?q] obtain new where new:
      "q_all (propose g interval ?q) = q_all headers @ new"
      "q_nodes (propose g interval ?q) = rest @ new"
      "set new \<subseteq> set (nodes g) - set (q_all headers)" "distinct new"
      by auto
    from "1.IH" [OF Cons gr "1.prems"] obtain res extra where r:
      "intervalsLoop g (propose g interval ?q) (intervals @ [interval]) = Inr res"
      "map i_head res = map i_head (intervals @ [interval]) @ q_nodes (propose g interval ?q) @ extra"
      "set extra \<subseteq> set (nodes g) - set (q_all (propose g interval ?q))" "distinct extra"
      by blast
    have e: "intervalsLoop g headers intervals
               = intervalsLoop g (propose g interval ?q) (intervals @ [interval])"
      using Cons gr by (subst intervalsLoop.simps) simp
    have "map i_head res = map i_head intervals @ q_nodes headers @ (new @ extra)"
      using r(2) new(2) hd Cons by simp
    moreover have "set (new @ extra) \<subseteq> set (nodes g) - set (q_all headers)"
      using r(3) new(1,3) by auto
    moreover have "distinct (new @ extra)"
      using r(3,4) new(1,4) by auto
    ultimately show ?thesis using e r(1) by metis
  qed
qed

lemma Intervals_heads:
  assumes r: "root g = Some r" and n: "r \<in> set (nodes g)"
  shows "\<exists>is. Intervals g = Inr is \<and> is \<noteq> [] \<and> i_head (hd is) = r \<and> length is \<le> Len g"
proof -
  from intervalsLoop_heads [OF r, of "push newQueue r" "[]"] obtain res extra where res:
    "intervalsLoop g (push newQueue r) [] = Inr res"
    "map i_head res = r # extra" "set extra \<subseteq> set (nodes g) - {r}" "distinct extra"
    by (auto simp: push_def newQueue_def)
  from res(3,4) have d: "distinct (map i_head res)" unfolding res(2) by auto
  from res(3) n have s: "set (map i_head res) \<subseteq> set (nodes g)" unfolding res(2) by auto
  have "length res = card (set (map i_head res))"
    using d distinct_card [of "map i_head res"] by simp
  also have "\<dots> \<le> card (set (nodes g))" using s by (intro card_mono) auto
  also have "\<dots> \<le> Len g" unfolding Len_def by (rule card_length)
  finally have l: "length res \<le> Len g" .
  from res(2) have "res \<noteq> []" "i_head (hd res) = r" by (cases res; simp)+
  with l res(1) r show ?thesis by (simp add: Intervals_def)
qed

lemma interval_id_inj: "interval_id i = interval_id j \<longleftrightarrow> i = j"
  by (simp add: interval_id_def)

lemma makeNodes_nodes:
  "makeNodes is ng ns rt c = (ng', ns', rt', c') \<Longrightarrow>
   \<forall>n \<in> set (nodes ng). Idx n < c \<Longrightarrow>
   length (nodes ng') = length (nodes ng) + length is \<and> (\<forall>n \<in> set (nodes ng'). Idx n < c')"
proof (induction "is" arbitrary: ng ns rt c)
  case Nil
  then show ?case by simp
next
  case (Cons interval rest)
  let ?ng1 = "graph_Interval ng c"
  from Cons.prems(2) have nin: "interval_id c \<notin> set (nodes ng)"
    by (auto simp: interval_id_def)
  then have n1: "nodes ?ng1 = nodes ng @ [interval_id c]"
    by (simp add: graph_Interval_def add_node_def)
  have b1: "\<forall>n \<in> set (nodes ?ng1). Idx n < c + 1"
    using Cons.prems(2) n1 by (auto simp: interval_id_def)
  show ?case
  proof (cases "rt = i_head interval")
    case True
    with Cons.prems(1) have m: "makeNodes rest (SetRoot ?ng1 (interval_id c))
        (ns @ [interval_id c]) (interval_id c) (c + 1) = (ng', ns', rt', c')"
      by (simp add: Let_def)
    have "\<forall>n \<in> set (nodes (SetRoot ?ng1 (interval_id c))). Idx n < c + 1"
      using b1 by (simp add: SetRoot_def)
    from Cons.IH [OF m this] n1 show ?thesis by (simp add: SetRoot_def)
  next
    case False
    with Cons.prems(1) have m: "makeNodes rest ?ng1 (ns @ [interval_id c]) rt (c + 1)
        = (ng', ns', rt', c')"
      by (simp add: Let_def)
    from Cons.IH [OF m b1] n1 show ?thesis by simp
  qed
qed

lemma makeNodes_root:
  "makeNodes is ng ns rt c = (ng', ns', rt', c') \<Longrightarrow>
   (root ng = Some rt \<and> rt \<in> set (nodes ng)) \<or> (is \<noteq> [] \<and> i_head (hd is) = rt) \<Longrightarrow>
   root ng' = Some rt' \<and> rt' \<in> set (nodes ng')"
proof (induction "is" arbitrary: ng ns rt c)
  case Nil
  then show ?case by simp
next
  case (Cons interval rest)
  let ?ng1 = "graph_Interval ng c"
  have in1: "interval_id c \<in> set (nodes ?ng1)" "set (nodes ng) \<subseteq> set (nodes ?ng1)"
    "root ?ng1 = root ng"
    by (auto simp: graph_Interval_def add_node_def)
  show ?case
  proof (cases "rt = i_head interval")
    case True
    with Cons.prems(1) have m: "makeNodes rest (SetRoot ?ng1 (interval_id c))
        (ns @ [interval_id c]) (interval_id c) (c + 1) = (ng', ns', rt', c')"
      by (simp add: Let_def)
    have "root (SetRoot ?ng1 (interval_id c)) = Some (interval_id c) \<and>
          interval_id c \<in> set (nodes (SetRoot ?ng1 (interval_id c)))"
      using in1 by (simp add: SetRoot_def)
    then show ?thesis using Cons.IH [OF m] by blast
  next
    case False
    with Cons.prems(1) have m: "makeNodes rest ?ng1 (ns @ [interval_id c]) rt (c + 1)
        = (ng', ns', rt', c')"
      by (simp add: Let_def)
    from False Cons.prems(2) have "root ng = Some rt \<and> rt \<in> set (nodes ng)" by auto
    with in1 have "root ?ng1 = Some rt \<and> rt \<in> set (nodes ?ng1)" by auto
    then show ?thesis using Cons.IH [OF m] by blast
  qed
qed

lemma fold_keeps:
  assumes "\<And>x h. nodes (f x h) = nodes h \<and> root (f x h) = root h"
  shows "nodes (fold f xs h) = nodes h \<and> root (fold f xs h) = root h"
  using assms by (induction xs arbitrary: h) auto

lemma SetEdge_keeps: "nodes (SetEdge h a b) = nodes h \<and> root (SetEdge h a b) = root h"
  by (simp add: SetEdge_def)

lemma predEdges_keeps:
  "nodes (predEdges pg ins h) = nodes h \<and> root (predEdges pg ins h) = root h"
proof -
  have inner: "nodes (fold (\<lambda>(predInterval, nk) ng.
                   if Contains predInterval x then SetEdge ng nk y else ng) ins k) = nodes k \<and>
               root (fold (\<lambda>(predInterval, nk) ng.
                   if Contains predInterval x then SetEdge ng nk y else ng) ins k) = root k"
    for x y k
    by (rule fold_keeps) (simp add: SetEdge_keeps split: prod.splits)
  have middle: "nodes (fold (\<lambda>pred ng.
                     if Contains interval pred then ng
                     else fold (\<lambda>(predInterval, nk) ng.
                                  if Contains predInterval pred then SetEdge ng nk y else ng)
                               ins ng) ps k) = nodes k \<and>
                root (fold (\<lambda>pred ng.
                     if Contains interval pred then ng
                     else fold (\<lambda>(predInterval, nk) ng.
                                  if Contains predInterval pred then SetEdge ng nk y else ng)
                               ins ng) ps k) = root k"
    for interval y ps k
    by (rule fold_keeps) (simp add: inner)
  show ?thesis
    unfolding predEdges_def by (rule fold_keeps) (simp add: middle split: prod.splits)
qed

lemma succEdges_keeps:
  "nodes (succEdges pg ins h) = nodes h \<and> root (succEdges pg ins h) = root h"
proof -
  have inner: "nodes (fold (\<lambda>(succInterval, nk) ng.
                   if Contains succInterval x then SetEdge ng y nk else ng) ins k) = nodes k \<and>
               root (fold (\<lambda>(succInterval, nk) ng.
                   if Contains succInterval x then SetEdge ng y nk else ng) ins k) = root k"
    for x y k
    by (rule fold_keeps) (simp add: SetEdge_keeps split: prod.splits)
  have middle: "nodes (fold (\<lambda>succ ng.
                     if Contains interval succ then ng
                     else fold (\<lambda>(succInterval, nk) ng.
                                  if Contains succInterval succ then SetEdge ng y nk else ng)
                               ins ng) ps k) = nodes k \<and>
                root (fold (\<lambda>succ ng.
                     if Contains interval succ then ng
                     else fold (\<lambda>(succInterval, nk) ng.
                                  if Contains succInterval succ then SetEdge ng y nk else ng)
                               ins ng) ps k) = root k"
    for interval y ps k
    by (rule fold_keeps) (simp add: inner)
  show ?thesis
    unfolding succEdges_def by (rule fold_keeps) (simp add: middle split: prod.splits)
qed

lemma collapse_ok:
  assumes c: "collapse pg is rt c = (ng, rt', c')"
    and i: "is \<noteq> []" "i_head (hd is) = rt"
  shows "Len ng = length is \<and> root ng = Some rt' \<and> rt' \<in> set (nodes ng)"
proof -
  obtain ng0 ns rt0 c0 where m: "makeNodes is New [] rt c = (ng0, ns, rt0, c0)"
    by (cases "makeNodes is New [] rt c")
  with c have ng: "ng = succEdges pg (zip is ns) (predEdges pg (zip is ns) ng0)"
    and rt0: "rt0 = rt'"
    by (simp_all add: collapse_def)
  have k: "nodes ng = nodes ng0" "root ng = root ng0"
    unfolding ng using succEdges_keeps predEdges_keeps by metis+
  from makeNodes_nodes [OF m] have "length (nodes ng0) = length is" by (simp add: New_def)
  moreover from makeNodes_root [OF m] i have "root ng0 = Some rt0 \<and> rt0 \<in> set (nodes ng0)"
    by blast
  ultimately show ?thesis using k rt0 by (simp add: Len_def)
qed

lemma derived_chain_snoc:
  assumes ch: "derived_chain graphs intervals"
    and l: "last graphs = pg" "last intervals = pis"
    and n: "Intervals ng = Inr nis" "length nis \<le> Len ng" "Len ng = length pis" "Len ng < Len pg"
  shows "derived_chain (graphs @ [ng]) (intervals @ [nis])"
proof -
  from ch have len: "length intervals = length graphs" and ne: "graphs \<noteq> []"
    and a: "\<And>i. i < length graphs \<Longrightarrow> Intervals (graphs ! i) = Inr (intervals ! i) \<and>
                           length (intervals ! i) \<le> Len (graphs ! i)"
    and b: "\<And>i. Suc i < length graphs \<Longrightarrow>
         Len (graphs ! Suc i) = length (intervals ! i) \<and>
         Len (graphs ! Suc i) < Len (graphs ! i)"
    unfolding derived_chain_def by blast+
  from ne len have ine: "intervals \<noteq> []" by auto
  have a': "Intervals ((graphs @ [ng]) ! i) = Inr ((intervals @ [nis]) ! i) \<and>
            length ((intervals @ [nis]) ! i) \<le> Len ((graphs @ [ng]) ! i)"
    if "i < length (graphs @ [ng])" for i
  proof (cases "i < length graphs")
    case True
    with a [OF True] len show ?thesis by (simp add: nth_append)
  next
    case False
    with that have "i = length graphs" by simp
    with n len show ?thesis by (simp add: nth_append)
  qed
  have b': "Len ((graphs @ [ng]) ! Suc i) = length ((intervals @ [nis]) ! i) \<and>
            Len ((graphs @ [ng]) ! Suc i) < Len ((graphs @ [ng]) ! i)"
    if "Suc i < length (graphs @ [ng])" for i
  proof (cases "Suc i < length graphs")
    case True
    with b [OF True] len show ?thesis by (simp add: nth_append)
  next
    case False
    with that have i: "Suc i = length graphs" by simp
    then have "length graphs - 1 = i" "length intervals - 1 = i" using len by simp_all
    then have "graphs ! i = pg" "intervals ! i = pis"
      using l ne ine by (simp_all add: last_conv_nth)
    with i n len show ?thesis by (simp add: nth_append)
  qed
  have "length (intervals @ [nis]) = length (graphs @ [ng])" "graphs @ [ng] \<noteq> []"
    using len by simp_all
  with a' b' show ?thesis
    unfolding derived_chain_def by blast
qed

lemma derivedLoop_terminates:
  assumes "root pg = Some rt" "rt \<in> set (nodes pg)" "Intervals pg = Inr pis"
    and "derived_chain graphs intervals" "last graphs = pg" "last intervals = pis"
  shows "\<exists>graphs' intervals'.
           derivedLoop pg pis rt c graphs intervals = Some (Inr (graphs', intervals')) \<and>
           derived_chain graphs' intervals' \<and> graphs' ! 0 = graphs ! 0 \<and>
           length (last intervals') = Len (last graphs')"
  using assms
proof (induction "Len pg" arbitrary: pg pis rt c graphs intervals rule: less_induct)
  case less
  from Intervals_heads [OF less.prems(1,2)] less.prems(3)
  have pis: "pis \<noteq> []" "i_head (hd pis) = rt" "length pis \<le> Len pg" by auto
  obtain ng rt' c' where col: "collapse pg pis rt c = (ng, rt', c')"
    by (cases "collapse pg pis rt c")
  from collapse_ok [OF col pis(1,2)]
  have ng: "Len ng = length pis" "root ng = Some rt'" "rt' \<in> set (nodes ng)" by simp_all
  show ?case
  proof (cases "Len ng = Len pg")
    case True
    then have "derivedLoop pg pis rt c graphs intervals = Some (Inr (graphs, intervals))"
      using col by (subst derivedLoop.simps) simp
    moreover have "length (last intervals) = Len (last graphs)"
      using less.prems(5,6) ng(1) True by simp
    ultimately show ?thesis using less.prems(4) by blast
  next
    case False
    with ng(1) pis(3) have lt: "Len ng < Len pg" by simp
    from Intervals_heads [OF ng(2,3)] obtain nis where
      nis: "Intervals ng = Inr nis" "length nis \<le> Len ng" by blast
    have ch: "derived_chain (graphs @ [ng]) (intervals @ [nis])"
      using less.prems(4,5,6) nis ng(1) lt by (rule derived_chain_snoc)
    from less.hyps [OF lt ng(2,3) nis(1) ch, of c'] obtain graphs' intervals' where r:
      "derivedLoop ng nis rt' c' (graphs @ [ng]) (intervals @ [nis])
         = Some (Inr (graphs', intervals'))"
      "derived_chain graphs' intervals'" "graphs' ! 0 = (graphs @ [ng]) ! 0"
      "length (last intervals') = Len (last graphs')"
      by auto
    from less.prems(4) have "graphs \<noteq> []" by (simp add: derived_chain_def)
    then have z: "(graphs @ [ng]) ! 0 = graphs ! 0" by (simp add: nth_append)
    have "derivedLoop pg pis rt c graphs intervals
            = derivedLoop ng nis rt' c' (graphs @ [ng]) (intervals @ [nis])"
      using col False nis(1) by (subst derivedLoop.simps) simp
    with r z show ?thesis by auto
  qed
qed

text \<open>
  C8: for every graph whose root is set and is one of its nodes, \<open>DerivedSequence\<close>
  returns: a list of graphs that starts with the input and a list of interval lists of
  the same length. Level \<open>i\<close> holds the intervals of graph \<open>i\<close>; the next derived graph
  has one node per interval, so its size is \<open>length (intervals ! i)\<close>, at most the size
  of graph \<open>i\<close>. Each graph in the list is smaller than the one before, and the
  iteration stops at the first level whose derived graph has the size of the graph it is
  derived from.
\<close>

theorem DerivedSequence_terminates:
  "root g = Some r \<and> r \<in> set (nodes g) \<longrightarrow>
   (\<exists>graphs intervals.
      DerivedSequence g = Some (Inr (graphs, intervals)) \<and>
      length intervals = length graphs \<and> graphs \<noteq> [] \<and> graphs ! 0 = g \<and>
      (\<forall>i < length graphs. Intervals (graphs ! i) = Inr (intervals ! i) \<and>
                            length (intervals ! i) \<le> Len (graphs ! i)) \<and>
      (\<forall>i. Suc i < length graphs \<longrightarrow>
          Len (graphs ! Suc i) = length (intervals ! i) \<and>
          Len (graphs ! Suc i) < Len (graphs ! i)) \<and>
      length (last intervals) = Len (last graphs))"
proof
  assume "root g = Some r \<and> r \<in> set (nodes g)"
  then have r: "root g = Some r" "r \<in> set (nodes g)" by simp_all
  from Intervals_heads [OF r] obtain "is" where
    "is": "Intervals g = Inr is" "length is \<le> Len g" by blast
  have ch: "derived_chain [g] [is]"
    using "is" by (simp add: derived_chain_def)
  from derivedLoop_terminates [OF r "is"(1) ch, of 0] obtain graphs intervals where
    res: "derivedLoop g is r 0 [g] [is] = Some (Inr (graphs, intervals))"
    "derived_chain graphs intervals" "graphs ! 0 = g"
    "length (last intervals) = Len (last graphs)"
    by auto
  have "DerivedSequence g = Some (Inr (graphs, intervals))"
    using "is"(1) r(1) res(1) by (simp add: DerivedSequence_def)
  with res(2,3,4) show "\<exists>graphs intervals.
      DerivedSequence g = Some (Inr (graphs, intervals)) \<and>
      length intervals = length graphs \<and> graphs \<noteq> [] \<and> graphs ! 0 = g \<and>
      (\<forall>i < length graphs. Intervals (graphs ! i) = Inr (intervals ! i) \<and>
                            length (intervals ! i) \<le> Len (graphs ! i)) \<and>
      (\<forall>i. Suc i < length graphs \<longrightarrow>
          Len (graphs ! Suc i) = length (intervals ! i) \<and>
          Len (graphs ! Suc i) < Len (graphs ! i)) \<and>
      length (last intervals) = Len (last graphs)"
    unfolding derived_chain_def by blast
qed

theorem DerivedSequence_terminates_witness:
  "root scenarioA = Some (node_id 1) \<and> node_id 1 \<in> set (nodes scenarioA) \<and>
   (\<exists>graphs intervals.
      DerivedSequence scenarioA = Some (Inr (graphs, intervals)) \<and>
      length intervals = length graphs \<and> map Len graphs = [6, 2, 1] \<and>
      length (last intervals) = Len (last graphs))"
proof -
  have r: "root scenarioA = Some (node_id 1) \<and> node_id 1 \<in> set (nodes scenarioA)"
    by code_simp
  have l: "(case DerivedSequence scenarioA of
              Some (Inr (graphs, intervals)) \<Rightarrow> map Len graphs = [6, 2, 1]
            | _ \<Rightarrow> False)"
    by code_simp
  from DerivedSequence_terminates [of scenarioA "node_id 1"] r obtain graphs intervals where
    d: "DerivedSequence scenarioA = Some (Inr (graphs, intervals))"
    "length intervals = length graphs" "length (last intervals) = Len (last graphs)"
    by blast
  from l d(1) have m: "map Len graphs = [6, 2, 1]" by simp
  from r have r1: "root scenarioA = Some (node_id 1)" and r2: "node_id 1 \<in> set (nodes scenarioA)"
    by simp_all
  from d m have "\<exists>graphs intervals.
      DerivedSequence scenarioA = Some (Inr (graphs, intervals)) \<and>
      length intervals = length graphs \<and> map Len graphs = [6, 2, 1] \<and>
      length (last intervals) = Len (last graphs)"
    by (intro exI [of _ graphs] exI [of _ intervals]) simp
  with r1 r2 show ?thesis by simp
qed

subsection \<open>C5: the intervals partition the reachable nodes\<close>

lemma grow_rule:
  assumes "root g = Some r" and "P i"
    and "\<And>j n. P j \<Longrightarrow> n \<in> set (nodes g) \<Longrightarrow> n \<noteq> r \<Longrightarrow> n \<notin> members j \<Longrightarrow>
           set (Predecessors g n) \<subseteq> members j \<Longrightarrow> P (add j n)"
  shows "\<exists>i'. grow g i = Inr i' \<and> P i'"
  using assms
proof (induction g i rule: grow.induct)
  case (1 g interval)
  from findNode_root [OF "1.prems"(1)] obtain x where
    x: "findNodeWithImmediatePredecessorsInInterval g interval = Inr x" by blast
  show ?case
  proof (cases x)
    case None
    with x "1.prems"(2) show ?thesis by (subst grow.simps) simp
  next
    case (Some node)
    from x Some "1.prems"(1)
    have "find (\<lambda>node. r \<noteq> node \<and> \<not> Contains interval node \<and>
                  list_all (Contains interval) (Predecessors g node)) (nodes g) = Some node"
      by (simp add: findNodeWithImmediatePredecessorsInInterval_def)
    from find_Some_set [OF this]
    have n: "node \<in> set (nodes g)" "node \<noteq> r" "node \<notin> members interval"
      "set (Predecessors g node) \<subseteq> members interval"
      by (auto simp: Contains_def members_def list_all_iff)
    have "P (add interval node)"
      using "1.prems"(2) n by (rule "1.prems"(3))
    from "1.IH" [OF x Some "1.prems"(1) this "1.prems"(3)] obtain i' where
      "grow g (add interval node) = Inr i'" "P i'"
      by blast
    moreover have "grow g interval = grow g (add interval node)"
      using x Some by (subst grow.simps) simp
    ultimately show ?thesis by simp
  qed
qed

lemma propose_props:
  "\<exists>new. q_all (propose g i q) = q_all q @ new \<and>
         q_nodes (propose g i q) = q_nodes q @ new \<and>
         set new \<subseteq> set (nodes g) - set (q_all q) \<and> distinct new \<and>
         (\<forall>n \<in> set new. n \<notin> members i \<and> (\<exists>p \<in> set (Predecessors g n). p \<in> members i)) \<and>
         (\<forall>n \<in> set (nodes g).
             n \<notin> members i \<and> (\<exists>p \<in> set (Predecessors g n). p \<in> members i)
               \<longrightarrow> n \<in> set (q_all q) \<union> set new)"
proof (induction g i q rule: propose.induct)
  case (1 g interval headers)
  let ?Q = "\<lambda>node. \<not> Contains interval node \<and> \<not> q_contains headers node \<and>
                   list_ex (Contains interval) (Predecessors g node)"
  show ?case
  proof (cases "findUnprocessedNodeWithImmediatePredecessors g interval headers")
    case None
    then have "find ?Q (nodes g) = None"
      by (simp add: findUnprocessedNodeWithImmediatePredecessors_def)
    then have "\<forall>n \<in> set (nodes g). \<not> ?Q n" by (simp add: find_None_iff)
    then have c: "\<forall>n \<in> set (nodes g).
             n \<notin> members interval \<and> (\<exists>p \<in> set (Predecessors g n). p \<in> members interval)
               \<longrightarrow> n \<in> set (q_all headers)"
      by (auto simp: Contains_def members_def q_contains_def list_ex_iff)
    have "propose g interval headers = headers"
      using None by (subst propose.simps) simp
    with c show ?thesis by simp
  next
    case (Some node)
    then have "find ?Q (nodes g) = Some node"
      by (simp add: findUnprocessedNodeWithImmediatePredecessors_def)
    from find_Some_set [OF this]
    have n: "node \<in> set (nodes g)" "node \<notin> set (q_all headers)" "node \<notin> members interval"
      "\<exists>p \<in> set (Predecessors g node). p \<in> members interval"
      by (auto simp: Contains_def members_def q_contains_def list_ex_iff)
    from "1.IH" [OF Some] obtain new where new:
      "q_all (propose g interval (push headers node)) = q_all (push headers node) @ new"
      "q_nodes (propose g interval (push headers node)) = q_nodes (push headers node) @ new"
      "set new \<subseteq> set (nodes g) - set (q_all (push headers node))" "distinct new"
      "\<forall>n \<in> set new. n \<notin> members interval \<and>
          (\<exists>p \<in> set (Predecessors g n). p \<in> members interval)"
      "\<forall>n \<in> set (nodes g).
             n \<notin> members interval \<and> (\<exists>p \<in> set (Predecessors g n). p \<in> members interval)
               \<longrightarrow> n \<in> set (q_all (push headers node)) \<union> set new"
      by blast
    have p: "propose g interval headers = propose g interval (push headers node)"
      using Some by (subst propose.simps) simp
    have pa: "q_all (push headers node) = q_all headers @ [node]"
      "q_nodes (push headers node) = q_nodes headers @ [node]"
      using n(2) by (simp_all add: push_def)
    have "q_all (propose g interval headers) = q_all headers @ (node # new)"
      "q_nodes (propose g interval headers) = q_nodes headers @ (node # new)"
      unfolding p new(1,2) pa by simp_all
    moreover have "set (node # new) \<subseteq> set (nodes g) - set (q_all headers)"
      using new(3) n(1,2) unfolding pa by auto
    moreover have "distinct (node # new)"
      using new(3,4) unfolding pa by auto
    moreover have "\<forall>n \<in> set (node # new). n \<notin> members interval \<and>
          (\<exists>p \<in> set (Predecessors g n). p \<in> members interval)"
      using new(5) n(3,4) by simp
    moreover have "\<forall>n \<in> set (nodes g).
             n \<notin> members interval \<and> (\<exists>p \<in> set (Predecessors g n). p \<in> members interval)
               \<longrightarrow> n \<in> set (q_all headers) \<union> set (node # new)"
      using new(6) unfolding pa by auto
    ultimately show ?thesis by blast
  qed
qed

lemma adj_mem: "b \<in> set (adj m a) \<Longrightarrow> \<exists>xs. (a, xs) \<in> set m \<and> b \<in> set xs"
proof (cases "map_of m a")
  case None
  assume "b \<in> set (adj m a)"
  with None show ?thesis by (simp add: adj_def)
next
  case (Some xs)
  assume "b \<in> set (adj m a)"
  with Some have "b \<in> set xs" by (simp add: adj_def)
  moreover from Some have "(a, xs) \<in> set m" by (rule map_of_SomeD)
  ultimately show ?thesis by blast
qed

lemma graph_okD:
  assumes "graph_ok g r"
  shows "root g = Some r" and "r \<in> set (nodes g)"
    and "\<And>a b. b \<in> set (Successors g a) \<Longrightarrow> b \<in> set (nodes g) \<and> a \<in> set (Predecessors g b)"
    and "\<And>a b. a \<in> set (Predecessors g b) \<Longrightarrow> b \<in> set (Successors g a)"
    and "\<And>n. n \<in> set (nodes g) \<Longrightarrow> n \<noteq> r \<Longrightarrow> Predecessors g n \<noteq> []"
proof -
  from assms show "root g = Some r" "r \<in> set (nodes g)" by (simp_all add: graph_ok_def)
  from assms have o: "\<And>e b. e \<in> set (outgoing g) \<Longrightarrow> b \<in> set (snd e) \<Longrightarrow>
                        b \<in> set (nodes g) \<and> fst e \<in> set (Predecessors g b)"
    and i: "\<And>e a. e \<in> set (incoming g) \<Longrightarrow> a \<in> set (snd e) \<Longrightarrow> fst e \<in> set (Successors g a)"
    and p: "\<And>n. n \<in> set (nodes g) \<Longrightarrow> n = r \<or> Predecessors g n \<noteq> []"
    by (simp_all add: graph_ok_def list_all_iff)
  show "b \<in> set (nodes g) \<and> a \<in> set (Predecessors g b)" if "b \<in> set (Successors g a)" for a b
  proof -
    from that obtain xs where "(a, xs) \<in> set (outgoing g)" "b \<in> set xs"
      unfolding Successors_def by (blast dest: adj_mem)
    from o [OF this(1)] this(2) show ?thesis by simp
  qed
  show "b \<in> set (Successors g a)" if "a \<in> set (Predecessors g b)" for a b
  proof -
    from that obtain xs where "(b, xs) \<in> set (incoming g)" "a \<in> set xs"
      unfolding Predecessors_def by (blast dest: adj_mem)
    from i [OF this(1)] this(2) show ?thesis by simp
  qed
  show "Predecessors g n \<noteq> []" if "n \<in> set (nodes g)" "n \<noteq> r" for n
    using p [OF that(1)] that(2) by simp
qed

lemma reachable_step:
  "p \<in> reachable g r \<Longrightarrow> n \<in> set (Successors g p) \<Longrightarrow> n \<in> reachable g r"
  by (auto simp: reachable_def edges_def intro: rtrancl_into_rtrancl)

lemma intervals_invD:
  assumes "intervals_inv g r acc headers"
  shows "set (q_all headers) = i_head ` set acc \<union> set (q_nodes headers)"
    and "distinct (map i_head acc @ q_nodes headers)"
    and "set (q_all headers) \<subseteq> set (nodes g) \<inter> reachable g r"
    and "\<forall>i \<in> set acc. grown g r i \<and> members i \<subseteq> reachable g r"
    and "\<forall>i \<in> set acc. \<forall>j \<in> set acc. i_head i \<noteq> i_head j \<longrightarrow> members i \<inter> members j = {}"
    and "\<forall>h \<in> set (q_nodes headers). \<forall>i \<in> set acc. h \<notin> members i"
    and "\<forall>h \<in> set (q_all headers).
           h = r \<or> (\<exists>i \<in> set acc. \<exists>p \<in> set (Predecessors g h). p \<in> members i)"
    and "\<forall>i \<in> set acc. \<forall>n \<in> set (nodes g).
           n \<notin> members i \<and> (\<exists>p \<in> set (Predecessors g n). p \<in> members i)
             \<longrightarrow> n \<in> set (q_all headers)"
  using assms unfolding intervals_inv_def by blast+

lemma intervals_invI:
  assumes "set (q_all headers) = i_head ` set acc \<union> set (q_nodes headers)"
    and "distinct (map i_head acc @ q_nodes headers)"
    and "set (q_all headers) \<subseteq> set (nodes g) \<inter> reachable g r"
    and "\<forall>i \<in> set acc. grown g r i \<and> members i \<subseteq> reachable g r"
    and "\<forall>i \<in> set acc. \<forall>j \<in> set acc. i_head i \<noteq> i_head j \<longrightarrow> members i \<inter> members j = {}"
    and "\<forall>h \<in> set (q_nodes headers). \<forall>i \<in> set acc. h \<notin> members i"
    and "\<forall>h \<in> set (q_all headers).
           h = r \<or> (\<exists>i \<in> set acc. \<exists>p \<in> set (Predecessors g h). p \<in> members i)"
    and "\<forall>i \<in> set acc. \<forall>n \<in> set (nodes g).
           n \<notin> members i \<and> (\<exists>p \<in> set (Predecessors g n). p \<in> members i)
             \<longrightarrow> n \<in> set (q_all headers)"
  shows "intervals_inv g r acc headers"
  using assms unfolding intervals_inv_def by blast

lemma grow_interval:
  assumes ok: "graph_ok g r"
    and inv: "intervals_inv g r acc headers"
    and q: "q_nodes headers = h # rest"
  shows "\<exists>i'. grow g (NewInterval h g) = Inr i' \<and> i_head i' = h \<and> grown g r i' \<and>
              members i' \<subseteq> reachable g r \<and> (\<forall>j \<in> set acc. members i' \<inter> members j = {})"
proof (rule grow_rule [where r = r])
  note d = intervals_invD [OF inv]
  show "root g = Some r" using ok by (rule graph_okD)
  from d(1) q have hq: "h \<in> set (q_all headers)" by simp
  show "i_head (NewInterval h g) = h \<and> grown g r (NewInterval h g) \<and>
        members (NewInterval h g) \<subseteq> reachable g r \<and>
        (\<forall>j \<in> set acc. members (NewInterval h g) \<inter> members j = {})"
    using d(3) d(6) hq q by (auto simp: NewInterval_def grown_def members_def)
next
  note d = intervals_invD [OF inv]
  fix j n
  assume P: "i_head j = h \<and> grown g r j \<and> members j \<subseteq> reachable g r \<and>
             (\<forall>k \<in> set acc. members j \<inter> members k = {})"
    and n: "n \<in> set (nodes g)" "n \<noteq> r" "n \<notin> members j"
      "set (Predecessors g n) \<subseteq> members j"
  have m: "members (add j n) = insert n (members j)"
    by (auto simp: add_def members_def)
  have hd: "i_head (add j n) = i_head j" by (simp add: add_def)
  from graph_okD(5) [OF ok n(1,2)] obtain p where p: "p \<in> set (Predecessors g n)"
    by (cases "Predecessors g n") auto
  with n(4) have pj: "p \<in> members j" by auto
  have g1: "grown g r (add j n)"
    using P n graph_okD(5) [OF ok n(1,2)] unfolding grown_def m hd by blast
  have "p \<in> reachable g r" using P pj by auto
  moreover have "n \<in> set (Successors g p)" using graph_okD(4) [OF ok p] .
  ultimately have "n \<in> reachable g r" by (rule reachable_step)
  then have g2: "members (add j n) \<subseteq> reachable g r" using P unfolding m by simp
  have g3: "n \<notin> members k" if k: "k \<in> set acc" for k
  proof
    assume nk: "n \<in> members k"
    from d(4) k have "grown g r k" by simp
    with nk have "n = i_head k \<or> set (Predecessors g n) \<subseteq> members k"
      unfolding grown_def by blast
    then show False
    proof
      assume "set (Predecessors g n) \<subseteq> members k"
      with p have "p \<in> members k" by auto
      with pj P k show False by blast
    next
      assume "n = i_head k"
      with d(1) k have "n \<in> set (q_all headers)" by auto
      with d(7) n(2) obtain i p' where "i \<in> set acc" "p' \<in> set (Predecessors g n)"
        "p' \<in> members i"
        by blast
      with n(4) P show False by blast
    qed
  qed
  have g4: "\<forall>k \<in> set acc. members (add j n) \<inter> members k = {}"
    using P g3 unfolding m by auto
  from P hd g1 g2 g4
  show "i_head (add j n) = h \<and> grown g r (add j n) \<and> members (add j n) \<subseteq> reachable g r \<and>
        (\<forall>k \<in> set acc. members (add j n) \<inter> members k = {})"
    by simp
qed

lemma intervals_inv_round:
  assumes ok: "graph_ok g r"
    and inv: "intervals_inv g r acc headers"
    and q: "q_nodes headers = h # rest"
    and gr: "grow g (NewInterval h g) = Inr i'"
  shows "intervals_inv g r (acc @ [i']) (propose g i' (headers\<lparr>q_nodes := rest\<rparr>))"
proof -
  note d = intervals_invD [OF inv]
  let ?q = "headers\<lparr>q_nodes := rest\<rparr>"
  let ?hs = "propose g i' ?q"
  from grow_interval [OF ok inv q] gr
  have hd: "i_head i' = h" and gi: "grown g r i'" and ri: "members i' \<subseteq> reachable g r"
    and di: "\<forall>j \<in> set acc. members i' \<inter> members j = {}"
    by simp_all
  from propose_props [of g i' ?q] obtain new where new:
    "q_all ?hs = q_all headers @ new" "q_nodes ?hs = rest @ new"
    "set new \<subseteq> set (nodes g) - set (q_all headers)" "distinct new"
    "\<forall>n \<in> set new. n \<notin> members i' \<and> (\<exists>p \<in> set (Predecessors g n). p \<in> members i')"
    "\<forall>n \<in> set (nodes g).
        n \<notin> members i' \<and> (\<exists>p \<in> set (Predecessors g n). p \<in> members i')
          \<longrightarrow> n \<in> set (q_all headers) \<union> set new"
    by auto
  from d(1) q have qa: "set (q_all headers) = i_head ` set acc \<union> insert h (set rest)" by simp
  from d(2) q have dist: "distinct (map i_head acc)" "distinct rest" "h \<notin> set rest"
    "h \<notin> i_head ` set acc" "i_head ` set acc \<inter> set rest = {}"
    by auto
  show ?thesis
  proof (rule intervals_invI)
    show "set (q_all ?hs) = i_head ` set (acc @ [i']) \<union> set (q_nodes ?hs)"
      unfolding new(1,2) using qa hd by auto
    show "distinct (map i_head (acc @ [i']) @ q_nodes ?hs)"
      unfolding new(2) using dist new(3,4) qa hd by auto
    have "n \<in> reachable g r" if "n \<in> set new" for n
    proof -
      from new(5) that obtain p where "p \<in> set (Predecessors g n)" "p \<in> members i'" by blast
      with ri graph_okD(4) [OF ok] reachable_step show ?thesis by blast
    qed
    then show "set (q_all ?hs) \<subseteq> set (nodes g) \<inter> reachable g r"
      unfolding new(1) using d(3) new(3) by auto
    show "\<forall>i \<in> set (acc @ [i']). grown g r i \<and> members i \<subseteq> reachable g r"
      using d(4) gi ri by simp
    show "\<forall>i \<in> set (acc @ [i']). \<forall>j \<in> set (acc @ [i']).
            i_head i \<noteq> i_head j \<longrightarrow> members i \<inter> members j = {}"
      using d(5) di by auto
    show "\<forall>h' \<in> set (q_nodes ?hs). \<forall>i \<in> set (acc @ [i']). h' \<notin> members i"
    proof (intro ballI)
      fix h' i assume h': "h' \<in> set (q_nodes ?hs)" and i: "i \<in> set (acc @ [i'])"
      from h' have "h' \<in> set rest \<or> h' \<in> set new" unfolding new(2) by simp
      then show "h' \<notin> members i"
      proof
        assume hr: "h' \<in> set rest"
        show ?thesis
        proof (cases "i \<in> set acc")
          case True
          with d(6) hr q show ?thesis by simp
        next
          case False
          with i have ii: "i = i'" by simp
          show ?thesis
          proof
            assume "h' \<in> members i"
            with ii gi hd have "h' = h \<or> (h' \<noteq> r \<and> set (Predecessors g h') \<subseteq> members i')"
              unfolding grown_def by blast
            with hr dist(3) have nr: "h' \<noteq> r" and sub: "set (Predecessors g h') \<subseteq> members i'"
              by auto
            from hr qa have "h' \<in> set (q_all headers)" by simp
            with d(7) nr obtain k p where "k \<in> set acc" "p \<in> set (Predecessors g h')"
              "p \<in> members k"
              by blast
            with sub di show False by blast
          qed
        qed
      next
        assume hn: "h' \<in> set new"
        show ?thesis
        proof (cases "i \<in> set acc")
          case False
          with i have "i = i'" by simp
          with new(5) hn show ?thesis by simp
        next
          case True
          show ?thesis
          proof
            assume m: "h' \<in> members i"
            from d(4) True have "grown g r i" by simp
            with m have "h' = i_head i \<or> set (Predecessors g h') \<subseteq> members i"
              unfolding grown_def by blast
            then show False
            proof
              assume "h' = i_head i"
              with True qa have "h' \<in> set (q_all headers)" by simp
              with new(3) hn show False by auto
            next
              assume sub: "set (Predecessors g h') \<subseteq> members i"
              from new(5) hn obtain p where "p \<in> set (Predecessors g h')" "p \<in> members i'"
                by blast
              with sub di True show False by blast
            qed
          qed
        qed
      qed
    qed
    show "\<forall>h' \<in> set (q_all ?hs).
           h' = r \<or> (\<exists>i \<in> set (acc @ [i']). \<exists>p \<in> set (Predecessors g h'). p \<in> members i)"
    proof
      fix h' assume "h' \<in> set (q_all ?hs)"
      then have "h' \<in> set (q_all headers) \<or> h' \<in> set new" unfolding new(1) by simp
      then show "h' = r \<or> (\<exists>i \<in> set (acc @ [i']). \<exists>p \<in> set (Predecessors g h'). p \<in> members i)"
      proof
        assume "h' \<in> set (q_all headers)"
        with d(7) show ?thesis by auto
      next
        assume "h' \<in> set new"
        with new(5) show ?thesis by auto
      qed
    qed
    show "\<forall>i \<in> set (acc @ [i']). \<forall>n \<in> set (nodes g).
           n \<notin> members i \<and> (\<exists>p \<in> set (Predecessors g n). p \<in> members i)
             \<longrightarrow> n \<in> set (q_all ?hs)"
    proof (intro ballI impI)
      fix i n assume i: "i \<in> set (acc @ [i'])" and n: "n \<in> set (nodes g)"
        and c: "n \<notin> members i \<and> (\<exists>p \<in> set (Predecessors g n). p \<in> members i)"
      show "n \<in> set (q_all ?hs)"
      proof (cases "i \<in> set acc")
        case True
        with d(8) n c have "n \<in> set (q_all headers)" by blast
        then show ?thesis unfolding new(1) by simp
      next
        case False
        with i have "i = i'" by simp
        with new(6) n c show ?thesis unfolding new(1) by auto
      qed
    qed
  qed
qed

lemma intervalsLoop_inv:
  "graph_ok g r \<Longrightarrow> intervals_inv g r acc headers \<Longrightarrow>
   \<exists>res hs. intervalsLoop g headers acc = Inr res \<and> intervals_inv g r res hs \<and> q_nodes hs = []"
proof (induction g headers acc rule: intervalsLoop.induct)
  case (1 g headers intervals)
  show ?case
  proof (cases "q_nodes headers")
    case Nil
    then have "intervalsLoop g headers intervals = Inr intervals"
      by (subst intervalsLoop.simps) simp
    with "1.prems"(2) Nil show ?thesis by blast
  next
    case (Cons h rest)
    from grow_interval [OF "1.prems" Cons] obtain i' where
      gr: "grow g (NewInterval h g) = Inr i'" by blast
    from intervals_inv_round [OF "1.prems" Cons gr]
    have inv': "intervals_inv g r (intervals @ [i'])
                  (propose g i' (headers\<lparr>q_nodes := rest\<rparr>))" .
    from "1.IH" [OF Cons gr "1.prems"(1) inv'] obtain res hs where
      "intervalsLoop g (propose g i' (headers\<lparr>q_nodes := rest\<rparr>)) (intervals @ [i']) = Inr res"
      "intervals_inv g r res hs" "q_nodes hs = []"
      by blast
    moreover have "intervalsLoop g headers intervals
        = intervalsLoop g (propose g i' (headers\<lparr>q_nodes := rest\<rparr>)) (intervals @ [i'])"
      using Cons gr by (subst intervalsLoop.simps) simp
    ultimately show ?thesis by auto
  qed
qed

text \<open>
  C5, as stated, fails: in \<open>isolated_loop\<close> node 3 has no predecessor, so the test
  "all predecessors are in the interval" holds of it in every interval.
  \<open>Intervals\<close> returns the intervals 1, 3 and 2, 3: node 3 is not reachable from the
  root, and the two intervals share it.
\<close>

theorem Intervals_partition_counterexample:
  "DFS isolated_loop = Inr [node_id 2, node_id 1] \<and>
   (case Intervals isolated_loop of
      Inr is \<Rightarrow> map (\<lambda>i. map Value (i_nodes i)) is = [[1, 3], [2, 3]]
    | Inl p \<Rightarrow> False)"
  by code_simp

text \<open>
  C5 (amended): for any graph whose root is set and is a node of the graph, whose edges
  lead to nodes of the graph, and in which every node other than the root has at least
  one predecessor, \<open>Intervals\<close> returns a family of intervals that partitions the
  reachable nodes: the union of the intervals is the set of nodes reachable from the
  root, and any two distinct intervals of the list are disjoint.
\<close>

theorem Intervals_partition:
  "graph_ok g r \<longrightarrow>
   (\<exists>is. Intervals g = Inr is \<and>
      (\<Union>i \<in> set is. set (i_nodes i)) = reachable g r \<and>
      (\<forall>a < length is. \<forall>b < length is. a \<noteq> b \<longrightarrow>
          set (i_nodes (is ! a)) \<inter> set (i_nodes (is ! b)) = {}))"
proof
  assume ok: "graph_ok g r"
  note g = graph_okD [OF ok]
  have init: "intervals_inv g r [] (push newQueue r)"
    by (rule intervals_invI) (simp_all add: push_def newQueue_def g(2) reachable_def)
  from intervalsLoop_inv [OF ok init] obtain res hs where
    res: "intervalsLoop g (push newQueue r) [] = Inr res"
    and inv: "intervals_inv g r res hs" and e: "q_nodes hs = []"
    by blast
  note d = intervals_invD [OF inv]
  have I: "Intervals g = Inr res" using res g(1) by (simp add: Intervals_def)
  let ?S = "\<Union>i \<in> set res. members i"
  have heads: "set (q_all hs) = i_head ` set res" using d(1) e by simp
  have sub: "?S \<subseteq> reachable g r" using d(4) by auto
  have hm: "i_head i \<in> members i" if "i \<in> set res" for i
    using d(4) that by (simp add: grown_def)
  have nodes: "?S \<subseteq> set (nodes g)"
  proof
    fix n assume "n \<in> ?S"
    then obtain i where i: "i \<in> set res" "n \<in> members i" by blast
    with d(4) have "n = i_head i \<or> n \<in> set (nodes g)" unfolding grown_def by blast
    moreover from i(1) heads d(3) have "i_head i \<in> set (nodes g)" by auto
    ultimately show "n \<in> set (nodes g)" by auto
  qed
  from intervalsLoop_heads [OF g(1), of "push newQueue r" "[]"] res
  have "r \<in> i_head ` set res"
    by (auto simp: push_def newQueue_def)
  then have rS: "r \<in> ?S" using hm by auto
  have closed: "b \<in> ?S" if a: "a \<in> ?S" and b: "b \<in> set (Successors g a)" for a b
  proof -
    from a obtain i where i: "i \<in> set res" "a \<in> members i" by blast
    from g(3) [OF b] have bn: "b \<in> set (nodes g)" and ab: "a \<in> set (Predecessors g b)"
      by simp_all
    show ?thesis
    proof (cases "b \<in> members i")
      case True
      with i show ?thesis by blast
    next
      case False
      with d(8) i bn ab have "b \<in> set (q_all hs)" by blast
      with heads obtain j where "j \<in> set res" "b = i_head j" by auto
      with hm show ?thesis by blast
    qed
  qed
  have "n \<in> ?S" if "(r, n) \<in> (edges g)\<^sup>*" for n
    using that
  proof (induction rule: rtrancl_induct)
    case base
    show ?case by (rule rS)
  next
    case (step y z)
    then show ?case using closed by (simp add: edges_def)
  qed
  with sub have un: "?S = reachable g r" by (auto simp: reachable_def)
  have dh: "distinct (map i_head res)" using d(2) e by simp
  have dis: "set (i_nodes (res ! a)) \<inter> set (i_nodes (res ! b)) = {}"
    if "a < length res" "b < length res" "a \<noteq> b" for a b
  proof -
    from dh that have "i_head (res ! a) \<noteq> i_head (res ! b)"
      by (simp add: distinct_conv_nth)
    with d(5) that show ?thesis by (simp add: members_def)
  qed
  from I un dis show "\<exists>is. Intervals g = Inr is \<and>
      (\<Union>i \<in> set is. set (i_nodes i)) = reachable g r \<and>
      (\<forall>a < length is. \<forall>b < length is. a \<noteq> b \<longrightarrow>
          set (i_nodes (is ! a)) \<inter> set (i_nodes (is ! b)) = {})"
    unfolding members_def by blast
qed

theorem Intervals_partition_witness:
  "graph_ok scenarioA (node_id 1) \<and>
   (\<exists>is. Intervals scenarioA = Inr is \<and>
      map (\<lambda>i. map Value (i_nodes i)) is = [[1], [2, 3, 4, 5, 6]] \<and>
      (\<Union>i \<in> set is. set (i_nodes i)) = reachable scenarioA (node_id 1))"
proof -
  have ok: "graph_ok scenarioA (node_id 1)"
    by code_simp
  have v: "(case Intervals scenarioA of
      Inr is \<Rightarrow> map (\<lambda>i. map Value (i_nodes i)) is = [[1], [2, 3, 4, 5, 6]]
    | Inl p \<Rightarrow> False)"
    by code_simp
  from Intervals_partition [of scenarioA "node_id 1"] ok obtain "is" where
    i: "Intervals scenarioA = Inr is"
    "(\<Union>i \<in> set is. set (i_nodes i)) = reachable scenarioA (node_id 1)"
    by blast
  from v i(1) have "map (\<lambda>i. map Value (i_nodes i)) is = [[1], [2, 3, 4, 5, 6]]" by simp
  with i have "\<exists>is. Intervals scenarioA = Inr is \<and>
      map (\<lambda>i. map Value (i_nodes i)) is = [[1], [2, 3, 4, 5, 6]] \<and>
      (\<Union>i \<in> set is. set (i_nodes i)) = reachable scenarioA (node_id 1)"
    by (intro exI [of _ "is"]) simp
  with ok show ?thesis by simp
qed

end
